theory Spec2Isabelle
  imports Complex_Main "HOL-Library.Word" "HOL-Library.Sublist"
    "HOL-Library.Char_ord" "HOL-Library.List_Lexorder"
begin

unbundle bit_operations_syntax

section \<open>Ranking of a tsvector by a tsquery (tsrank.cpp)\<close>

text \<open>
  The development embeds \<^verbatim>\<open>src/common/backend/utils/adt/tsrank.cpp\<close>. Scores are C
  \<^verbatim>\<open>float\<close>/\<^verbatim>\<open>double\<close> values in the source; here they are real numbers, so
  every statement is about the formulas the code evaluates, not about rounding.
  Memory management (\<^verbatim>\<open>palloc\<close>, \<^verbatim>\<open>pfree_ext\<close>, \<^verbatim>\<open>repalloc\<close>) and the host hooks
  \<^verbatim>\<open>ts_check_feature_disable\<close> and \<^verbatim>\<open>check_stack_depth\<close> have no counterpart.
\<close>

subsection \<open>Data model\<close>

text \<open>
  A \<^verbatim>\<open>WordEntryPos\<close> is a 16-bit word holding a position and a weight class. The
  type, its accessors and \<^verbatim>\<open>MAXENTRYPOS\<close> are declared in \<^verbatim>\<open>tsearch/ts_type.h\<close>,
  which is not among the sources. The spec gives a position as a pair (pos below
  \<open>MAX_POS\<close>, class in 0..3); the word keeps the class in its two high bits and the
  position in its fourteen low bits.
\<close>

type_synonym WordEntryPos = "16 word"

text \<open>
  Modelled from the spec: the constant \<^verbatim>\<open>MAXENTRYPOS\<close> (\<^verbatim>\<open>ts_type.h\<close> is missing),
  the spec's \<open>MAX_POS\<close>, the first value above every position: \<open>2 ^ 14\<close> for
  fourteen position bits.
\<close>

definition MAXENTRYPOS :: int where
  "MAXENTRYPOS = 2 ^ 14"

text \<open>
  Modelled from the spec: the macro \<^verbatim>\<open>WEP_GETWEIGHT\<close> (\<^verbatim>\<open>ts_type.h\<close> is missing),
  the weight class 0..3 of a position, read from the two high bits.
\<close>

definition WEP_GETWEIGHT :: "WordEntryPos \<Rightarrow> nat" where
  "WEP_GETWEIGHT x = unat (drop_bit 14 x)"

text \<open>
  Modelled from the spec: the macro \<^verbatim>\<open>WEP_GETPOS\<close> (\<^verbatim>\<open>ts_type.h\<close> is missing), the
  position below \<open>MAX_POS\<close>, read from the fourteen low bits.
\<close>

definition WEP_GETPOS :: "WordEntryPos \<Rightarrow> nat" where
  "WEP_GETPOS x = unat (x AND 0x3fff)"

text \<open>
  Modelled from the spec: the macro \<^verbatim>\<open>WEP_SETPOS\<close> (\<^verbatim>\<open>ts_type.h\<close> is missing), which
  stores a position and keeps the class.
\<close>

definition WEP_SETPOS :: "WordEntryPos \<Rightarrow> int \<Rightarrow> WordEntryPos" where
  "WEP_SETPOS x v = (x AND 0xc000) OR (word_of_int v AND 0x3fff)"

text \<open>
  A \<^verbatim>\<open>WordEntry\<close> of a tsvector: its lexeme (the bytes the entry's \<^verbatim>\<open>pos\<close> and
  \<^verbatim>\<open>len\<close> select in the string area), the \<^verbatim>\<open>haspos\<close> bit and the position vector
  stored behind the lexeme. A \<^verbatim>\<open>TSVector\<close> is the array of its entries; \<^verbatim>\<open>t->size\<close>
  is the length of the list.
\<close>

record WordEntry =
  lexeme :: string
  haspos :: bool
  posvec :: "WordEntryPos list"

type_synonym TSVector = "WordEntry list"

definition POSDATALEN :: "WordEntry \<Rightarrow> nat" where
  "POSDATALEN e = (if haspos e then length (posvec e) else 0)"

text \<open>
  A query is the array of its items: operands (\<^verbatim>\<open>QI_VAL\<close>), whose string is the part
  of the operand pool that \<^verbatim>\<open>distance\<close> and \<^verbatim>\<open>length\<close> select, and operators
  (\<^verbatim>\<open>QI_OPR\<close>). The first item is the root.
\<close>

datatype oper = OP_NOT | OP_AND | OP_OR

record QueryOperand =
  operand :: string
  is_prefix :: bool

datatype QueryItem = QI_VAL QueryOperand | QI_OPR oper

type_synonym TSQuery = "QueryItem list"

subsection \<open>String comparison\<close>

text \<open>
  Modelled from the spec: the bytewise comparison that \<^verbatim>\<open>tsCompareString\<close> makes over
  the length of the shorter side (\<^verbatim>\<open>tsvector_op.c\<close> is not among the sources): the sign
  of the first difference of two bytes, 0 when there is none.
\<close>

fun memcmp :: "string \<Rightarrow> string \<Rightarrow> int" where
  "memcmp [] ys = 0"
| "memcmp (x # xs) [] = 0"
| "memcmp (x # xs) (y # ys) =
     (if (of_char x :: nat) < of_char y then - 1
      else if (of_char y :: nat) < of_char x then 1
      else memcmp xs ys)"

text \<open>
  Modelled from the spec: \<^verbatim>\<open>tsCompareString\<close> (defined in \<^verbatim>\<open>tsvector_op.c\<close>, not among
  the sources). The spec: bytewise comparison over the length of the shorter side, then
  the length as tie-break when \<open>prefix = false\<close>; equality under the prefix rule when
  \<open>prefix = true\<close>, that is, 0 when the first string is a prefix of the second, and the
  first string above the second when it is the longer one.
\<close>

definition tsCompareString :: "string \<Rightarrow> string \<Rightarrow> bool \<Rightarrow> int" where
  "tsCompareString a b pfx =
     (let cmp = memcmp a b in
      if pfx then (if cmp = 0 \<and> length a > length b then 1 else cmp)
      else if cmp = 0 \<and> length a \<noteq> length b then (if length a < length b then - 1 else 1)
      else cmp)"

definition WordECompareQueryItem :: "WordEntry \<Rightarrow> QueryOperand \<Rightarrow> bool \<Rightarrow> int" where
  "WordECompareQueryItem p i m = tsCompareString (operand i) (lexeme p) m"

subsection \<open>Weights and small helpers\<close>

definition weights :: "real list" where
  "weights = [0.1, 0.2, 0.4, 1]"

definition wpos :: "real list \<Rightarrow> WordEntryPos \<Rightarrow> real" where
  "wpos w wep = w ! WEP_GETWEIGHT wep"

definition word_distance :: "int \<Rightarrow> real" where
  "word_distance w =
     (if w > 100 then 1 / 10 ^ 30
      else 1 / (1.005 + 0.05 * exp (real_of_int w / 1.5 - 2)))"

definition cnt_length :: "TSVector \<Rightarrow> nat" where
  "cnt_length t =
     foldl (\<lambda>len ptr. let clen = POSDATALEN ptr in
                        if clen = 0 then len + 1 else len + clen) 0 t"

subsection \<open>Lexeme lookup\<close>

text \<open>
  The binary search of \<^verbatim>\<open>find_wordentry\<close>: the state is \<^verbatim>\<open>stop_low\<close>,
  \<^verbatim>\<open>stop_high\<close>, \<^verbatim>\<open>stop_middle\<close> as indices into the entry array; the result adds
  \<^verbatim>\<open>*nitem\<close>.
\<close>

function find_loop ::
  "TSVector \<Rightarrow> QueryOperand \<Rightarrow> nat \<Rightarrow> nat \<Rightarrow> nat \<Rightarrow> nat \<times> nat \<times> nat \<times> nat" where
  "find_loop t item stop_low stop_high stop_middle =
     (if stop_low < stop_high then
        (if WordECompareQueryItem (t ! (stop_low + (stop_high - stop_low) div 2)) item False = 0
         then (stop_low, stop_low + (stop_high - stop_low) div 2,
               stop_low + (stop_high - stop_low) div 2, 1)
         else if WordECompareQueryItem (t ! (stop_low + (stop_high - stop_low) div 2)) item False > 0
         then find_loop t item (stop_low + (stop_high - stop_low) div 2 + 1) stop_high
                (stop_low + (stop_high - stop_low) div 2)
         else find_loop t item stop_low (stop_low + (stop_high - stop_low) div 2)
                (stop_low + (stop_high - stop_low) div 2))
      else (stop_low, stop_high, stop_middle, 0))"
  by pat_completeness auto
termination
  by (relation "measure (\<lambda>(t, item, lo, hi, mid). hi - lo)") auto

declare find_loop.simps [simp del]

text \<open>The forward scan under the prefix rule, counting the entries of the run.\<close>

function prefix_run :: "TSVector \<Rightarrow> QueryOperand \<Rightarrow> nat \<Rightarrow> nat \<Rightarrow> nat" where
  "prefix_run t item stop_middle nitem =
     (if stop_middle < length t \<and> WordECompareQueryItem (t ! stop_middle) item True = 0
      then prefix_run t item (stop_middle + 1) (nitem + 1)
      else nitem)"
  by pat_completeness auto
termination
  by (relation "measure (\<lambda>(t, item, mid, n). length t - mid)") auto

declare prefix_run.simps [simp del]

text \<open>
  \<^verbatim>\<open>find_wordentry\<close> returns the pointer to the first entry of the run (\<open>None\<close> for
  \<^verbatim>\<open>NULL\<close>) and the count \<^verbatim>\<open>*nitem\<close>.
\<close>

definition find_wordentry :: "TSVector \<Rightarrow> QueryOperand \<Rightarrow> nat option \<times> nat" where
  "find_wordentry t item =
     (case find_loop t item 0 (length t) (length t) of
        (stop_low, stop_high, stop_middle, nitem) \<Rightarrow>
          if is_prefix item then
            (let stop_middle' = (if stop_low \<ge> stop_high then stop_high else stop_middle);
                 nitem' = prefix_run t item stop_middle' 0
             in (if nitem' > 0 then Some stop_high else None, nitem'))
          else (if nitem > 0 then Some stop_high else None, nitem))"

lemma find_wordentry_empty: "find_wordentry [] item = (None, 0)"
  by (simp add: find_wordentry_def find_loop.simps prefix_run.simps)


subsection \<open>Operand preparation\<close>

text \<open>
  Modelled from the spec: the insertion step of the sort below; an element goes before
  the first element that does not compare below it.
\<close>

fun sort_insert :: "('a \<Rightarrow> 'a \<Rightarrow> int) \<Rightarrow> 'a \<Rightarrow> 'a list \<Rightarrow> 'a list" where
  "sort_insert cmp x [] = [x]"
| "sort_insert cmp x (y # ys) =
     (if cmp x y \<le> 0 then x # y # ys else y # sort_insert cmp x ys)"

text \<open>
  Modelled from the spec: \<^verbatim>\<open>qsort_arg\<close> and \<^verbatim>\<open>qsort\<close>, library routines that are not
  among the sources. The spec asks for a stable sort (operands are stable-sorted, doc-rep
  ties are broken stably); the model is insertion sort with the caller's comparison
  function, which keeps equal elements in their order.
\<close>

definition qsort_arg :: "('a \<Rightarrow> 'a \<Rightarrow> int) \<Rightarrow> 'a list \<Rightarrow> 'a list" where
  "qsort_arg cmp xs = foldr (sort_insert cmp) xs []"

definition compare_query_operand :: "QueryOperand \<Rightarrow> QueryOperand \<Rightarrow> int" where
  "compare_query_operand qa qb = tsCompareString (operand qa) (operand qb) False"

text \<open>The first loop of \<^verbatim>\<open>sort_and_uniq_items\<close>: the operands of the query, in order.\<close>

fun collect_operands :: "TSQuery \<Rightarrow> QueryOperand list" where
  "collect_operands [] = []"
| "collect_operands (QI_VAL v # items) = v # collect_operands items"
| "collect_operands (QI_OPR opr # items) = collect_operands items"

text \<open>
  The last loop: an element is kept when it differs from the element kept last
  (\<^verbatim>\<open>prevptr\<close>).
\<close>

fun remove_duplicates :: "QueryOperand list \<Rightarrow> QueryOperand list" where
  "remove_duplicates (prev # ptr # rest) =
     (if compare_query_operand ptr prev \<noteq> 0 then prev # remove_duplicates (ptr # rest)
      else remove_duplicates (prev # rest))"
| "remove_duplicates res = res"

definition sort_and_uniq_items :: "TSQuery \<Rightarrow> QueryOperand list" where
  "sort_and_uniq_items q =
     (let res = collect_operands q in
      if length res < 2 then res
      else remove_duplicates (qsort_arg compare_query_operand res))"

subsection \<open>The standard ranker\<close>

text \<open>
  The dummy position vector used when \<^verbatim>\<open>haspos\<close> is false: \<^verbatim>\<open>npos = 1\<close> and
  \<^verbatim>\<open>pos[0] = 0\<close>.
\<close>

definition pos_null :: "WordEntryPos list" where
  "pos_null = [0]"

text \<open>
  The loop over \<^verbatim>\<open>j\<close> in \<^verbatim>\<open>calc_rank_or\<close>; the state is
  (\<^verbatim>\<open>resj\<close>, \<^verbatim>\<open>wjm\<close>, \<^verbatim>\<open>jm\<close>).
\<close>

fun or_positions :: "real list \<Rightarrow> WordEntryPos list \<Rightarrow> nat \<Rightarrow> real \<times> real \<times> nat \<Rightarrow> real \<times> real \<times> nat" where
  "or_positions w [] j st = st"
| "or_positions w (p # post) j (resj, wjm, jm) =
     or_positions w post (j + 1)
       (resj + wpos w p / real ((j + 1) * (j + 1)),
        if wpos w p > wjm then wpos w p else wjm,
        if wpos w p > wjm then j else jm)"

text \<open>The body of the loop over the entries of a run: what one entry adds to \<^verbatim>\<open>res\<close>.\<close>

definition or_entry :: "real list \<Rightarrow> WordEntry \<Rightarrow> real" where
  "or_entry w entry =
     (case or_positions w (if haspos entry then posvec entry else pos_null) 0 (0, - 1, 0) of
        (resj, wjm, jm) \<Rightarrow>
          (wjm + resj - wjm / real ((jm + 1) * (jm + 1))) / 1.64493406685)"

definition or_operand :: "real list \<Rightarrow> TSVector \<Rightarrow> real \<Rightarrow> QueryOperand \<Rightarrow> real" where
  "or_operand w t res item =
     (case find_wordentry t item of
        (None, nitem) \<Rightarrow> res
      | (Some firstentry, nitem) \<Rightarrow>
          foldl (\<lambda>res entry. res + or_entry w entry) res (take nitem (drop firstentry t)))"

definition calc_rank_or :: "real list \<Rightarrow> TSVector \<Rightarrow> TSQuery \<Rightarrow> real" where
  "calc_rank_or w t q =
     (let item = sort_and_uniq_items q;
          res = foldl (or_operand w t) 0 item
      in if length item > 0 then res / real (length item) else res)"

text \<open>
  In \<^verbatim>\<open>calc_rank_and\<close> an element of the array \<^verbatim>\<open>pos\<close> is \<^verbatim>\<open>NULL\<close> (\<open>None\<close>) or
  points to a position vector; the code compares the pointer with \<^verbatim>\<open>pos_null_ptr\<close>,
  so the model keeps with each vector whether it is that dummy. The dummy has its
  position set to \<^verbatim>\<open>MAXENTRYPOS - 1\<close> here.
\<close>

type_synonym posref = "bool \<times> WordEntryPos list"

definition pos_null_and :: "WordEntryPos list" where
  "pos_null_and = [WEP_SETPOS 0 (MAXENTRYPOS - 1)]"

text \<open>The body of the two inner loops: one pair of positions \<^verbatim>\<open>post[l]\<close>, \<^verbatim>\<open>ct[p]\<close>.\<close>

definition and_pair :: "real list \<Rightarrow> bool \<Rightarrow> real \<Rightarrow> WordEntryPos \<Rightarrow> WordEntryPos \<Rightarrow> real" where
  "and_pair w is_null res postl ctp =
     (let dist = \<bar>int (WEP_GETPOS postl) - int (WEP_GETPOS ctp)\<bar> in
      if dist \<noteq> 0 \<or> (dist = 0 \<and> is_null) then
        (let curw = sqrt (wpos w postl * wpos w ctp *
                          word_distance (if dist = 0 then MAXENTRYPOS else dist))
         in if res < 0 then curw else 1 - (1 - res) * (1 - curw))
      else res)"

definition and_against :: "real list \<Rightarrow> posref \<Rightarrow> real \<Rightarrow> posref option \<Rightarrow> real" where
  "and_against w posi res posk =
     (case posk of
        None \<Rightarrow> res
      | Some ct \<Rightarrow>
          foldl (\<lambda>res (postl, ctp). and_pair w (fst posi \<or> fst ct) res postl ctp) res
            (List.product (snd posi) (snd ct)))"

definition and_entry ::
  "real list \<Rightarrow> nat \<Rightarrow> posref option list \<times> real \<Rightarrow> WordEntry \<Rightarrow> posref option list \<times> real" where
  "and_entry w i st entry =
     (let posi = (if haspos entry then (False, posvec entry) else (True, pos_null_and));
          pos = (fst st)[i := Some posi]
      in (pos, foldl (and_against w posi) (snd st) (take i pos)))"

definition and_operand ::
  "real list \<Rightarrow> TSVector \<Rightarrow> QueryOperand list \<Rightarrow> posref option list \<times> real \<Rightarrow> nat
     \<Rightarrow> posref option list \<times> real" where
  "and_operand w t item st i =
     (case find_wordentry t (item ! i) of
        (None, nitem) \<Rightarrow> st
      | (Some firstentry, nitem) \<Rightarrow>
          foldl (and_entry w i) st (take nitem (drop firstentry t)))"

definition calc_rank_and :: "real list \<Rightarrow> TSVector \<Rightarrow> TSQuery \<Rightarrow> real" where
  "calc_rank_and w t q =
     (let item = sort_and_uniq_items q in
      if length item < 2 then calc_rank_or w t q
      else snd (foldl (and_operand w t item) (replicate (length q) None, - 1)
                  [0..<length item]))"

text \<open>
  The normalisations of \<^verbatim>\<open>calc_rank\<close>, in the order of the source. The bitmask
  \<^verbatim>\<open>method\<close> is a 32-bit word.
\<close>

definition rank_normalise :: "32 word \<Rightarrow> TSVector \<Rightarrow> real \<Rightarrow> real" where
  "rank_normalise method' t res =
     (let res1 = (if method' AND 0x01 \<noteq> 0 \<and> length t > 0
                  then res / (ln (real (cnt_length t + 1)) / ln 2) else res);
          res2 = (if method' AND 0x02 \<noteq> 0
                  then (let len = cnt_length t in if len > 0 then res1 / real len else res1)
                  else res1);
          res3 = (if method' AND 0x08 \<noteq> 0 \<and> length t > 0
                  then res2 / real (length t) else res2);
          res4 = (if method' AND 0x10 \<noteq> 0 \<and> length t > 0
                  then res3 / (ln (real (length t + 1)) / ln 2) else res3)
      in if method' AND 0x20 \<noteq> 0 then res4 / (res4 + 1) else res4)"

definition calc_rank :: "real list \<Rightarrow> TSVector \<Rightarrow> TSQuery \<Rightarrow> 32 word \<Rightarrow> real" where
  "calc_rank w t q method' =
     (if length t = 0 \<or> length q = 0 then 0
      else
        (let res = (if hd q = QI_OPR OP_AND then calc_rank_and w t q else calc_rank_or w t q)
         in rank_normalise method' t (if res < 0 then 1 / 10 ^ 20 else res)))"

subsection \<open>The weight array\<close>

datatype error =
  WeightNotOneDimensional | WeightTooShort | WeightContainsNulls | WeightOutOfRange

text \<open>
  The caller's array, as far as \<^verbatim>\<open>get_weights\<close> looks at it: the number of
  dimensions, the number of items (\<^verbatim>\<open>ArrayGetNItems\<close>), whether it holds a null
  (\<^verbatim>\<open>array_contains_nulls\<close>) and its data.
\<close>

record ArrayType =
  ARR_NDIM :: int
  ARR_NITEMS :: nat
  ARR_HASNULL :: bool
  ARR_DATA :: "real list"

text \<open>
  The loop shared by \<^verbatim>\<open>get_weights\<close> and the head of \<^verbatim>\<open>calc_rank_cd\<close>, over
  the entries \<^verbatim>\<open>arrdata[0]\<close> to \<^verbatim>\<open>arrdata[3]\<close>: a negative entry takes the default,
  an entry above 1 raises.
\<close>

fun check_weights :: "real list \<Rightarrow> real list \<Rightarrow> error + real list" where
  "check_weights (a # arrdata) (d # defaults) =
     (let ws = (if a \<ge> 0 then a else d) in
      if ws > 1 then Inl WeightOutOfRange
      else (case check_weights arrdata defaults of
              Inl e \<Rightarrow> Inl e
            | Inr rest \<Rightarrow> Inr (ws # rest)))"
| "check_weights arrdata defaults = Inr []"

definition get_weights :: "ArrayType option \<Rightarrow> error + real list" where
  "get_weights win =
     (case win of
        None \<Rightarrow> Inr weights
      | Some a \<Rightarrow>
          if ARR_NDIM a \<noteq> 1 then Inl WeightNotOneDimensional
          else if ARR_NITEMS a < length weights then Inl WeightTooShort
          else if ARR_HASNULL a then Inl WeightContainsNulls
          else check_weights (map (\<lambda>i. ARR_DATA a ! i) [0..<length weights]) weights)"

definition ts_rank_wttf :: "ArrayType \<Rightarrow> TSVector \<Rightarrow> TSQuery \<Rightarrow> 32 word \<Rightarrow> error + real" where
  "ts_rank_wttf win txt query method' =
     (case get_weights (Some win) of
        Inl e \<Rightarrow> Inl e
      | Inr w \<Rightarrow> Inr (calc_rank w txt query method'))"

definition ts_rank_wtt :: "ArrayType \<Rightarrow> TSVector \<Rightarrow> TSQuery \<Rightarrow> error + real" where
  "ts_rank_wtt win txt query =
     (case get_weights (Some win) of
        Inl e \<Rightarrow> Inl e
      | Inr w \<Rightarrow> Inr (calc_rank w txt query 0))"

definition ts_rank_ttf :: "TSVector \<Rightarrow> TSQuery \<Rightarrow> 32 word \<Rightarrow> error + real" where
  "ts_rank_ttf txt query method' =
     (case get_weights None of
        Inl e \<Rightarrow> Inl e
      | Inr w \<Rightarrow> Inr (calc_rank w txt query method'))"

definition ts_rank_tt :: "TSVector \<Rightarrow> TSQuery \<Rightarrow> error + real" where
  "ts_rank_tt txt query =
     (case get_weights None of
        Inl e \<Rightarrow> Inl e
      | Inr w \<Rightarrow> Inr (calc_rank w txt query 0))"


subsection \<open>The document representation\<close>

text \<open>
  A \<^verbatim>\<open>DocRepresentation\<close>: the query items attached to the occurrence (pointers into
  the query, here their indices; \<^verbatim>\<open>nitem\<close> is the length of the list), the weight
  class and the position.
\<close>

record DocRepresentation =
  dr_item :: "nat list"
  dr_wclass :: nat
  dr_pos :: int

definition compareDocR :: "DocRepresentation \<Rightarrow> DocRepresentation \<Rightarrow> int" where
  "compareDocR a b =
     (if dr_pos a = dr_pos b then 0 else if dr_pos a > dr_pos b then 1 else - 1)"

text \<open>
  The loop over \<^verbatim>\<open>k\<close> in \<^verbatim>\<open>get_docrep\<close>, run for the first position of an entry:
  the items attached to the occurrence, and \<^verbatim>\<open>QR_SET_OPERAND_EXISTS\<close> for each.
\<close>

definition same_operand :: "TSQuery \<Rightarrow> nat \<Rightarrow> nat \<Rightarrow> bool" where
  "same_operand q i k =
     (k = i \<or>
      (case q ! k of
         QI_VAL kptr \<Rightarrow>
           (case q ! i of
              QI_VAL iptr \<Rightarrow> compare_query_operand kptr iptr = 0
            | QI_OPR opr \<Rightarrow> False)
       | QI_OPR opr \<Rightarrow> False))"

definition docrep_items :: "TSQuery \<Rightarrow> nat \<Rightarrow> nat list" where
  "docrep_items q i = filter (same_operand q i) [0..<length q]"

definition mark_exists :: "bool list \<Rightarrow> nat list \<Rightarrow> bool list" where
  "mark_exists operandexist items = foldl (\<lambda>ex k. ex[k := True]) operandexist items"

text \<open>
  The loop over \<^verbatim>\<open>j\<close>: one occurrence per position. The state is the array
  \<^verbatim>\<open>doc\<close> filled so far (\<^verbatim>\<open>cur\<close> is its length) and \<^verbatim>\<open>operandexist\<close>.
\<close>

fun docrep_positions ::
  "TSQuery \<Rightarrow> nat \<Rightarrow> WordEntryPos list \<Rightarrow> nat \<Rightarrow> DocRepresentation list \<times> bool list
     \<Rightarrow> DocRepresentation list \<times> bool list" where
  "docrep_positions q i [] j st = st"
| "docrep_positions q i (p # post) j (doc, operandexist) =
     docrep_positions q i post (j + 1)
       (if j = 0
        then (doc @ [\<lparr>dr_item = docrep_items q i, dr_wclass = WEP_GETWEIGHT p,
                       dr_pos = int (WEP_GETPOS p)\<rparr>],
              mark_exists operandexist (docrep_items q i))
        else (doc @ [\<lparr>dr_item = dr_item (last doc), dr_wclass = WEP_GETWEIGHT p,
                       dr_pos = int (WEP_GETPOS p)\<rparr>],
              operandexist))"

definition docrep_entry ::
  "TSQuery \<Rightarrow> nat \<Rightarrow> DocRepresentation list \<times> bool list \<Rightarrow> WordEntry
     \<Rightarrow> DocRepresentation list \<times> bool list" where
  "docrep_entry q i st entry =
     docrep_positions q i (if haspos entry then posvec entry else pos_null) 0 st"

definition docrep_operand ::
  "TSVector \<Rightarrow> TSQuery \<Rightarrow> DocRepresentation list \<times> bool list \<Rightarrow> nat
     \<Rightarrow> DocRepresentation list \<times> bool list" where
  "docrep_operand txt q st i =
     (case q ! i of
        QI_OPR opr \<Rightarrow> st
      | QI_VAL curoperand \<Rightarrow>
          if snd st ! i then st
          else (case find_wordentry txt curoperand of
                  (None, nitem) \<Rightarrow> st
                | (Some firstentry, nitem) \<Rightarrow>
                    foldl (docrep_entry q i) st (take nitem (drop firstentry txt))))"

text \<open>
  \<^verbatim>\<open>get_docrep\<close> starts from the zeroed \<^verbatim>\<open>operandexist\<close> of its caller and
  returns \<^verbatim>\<open>NULL\<close> (\<open>None\<close>) when no occurrence was stored; \<^verbatim>\<open>*doclen\<close> is the
  length of the list.
\<close>

definition get_docrep :: "TSVector \<Rightarrow> TSQuery \<Rightarrow> DocRepresentation list option" where
  "get_docrep txt q =
     (let doc = fst (foldl (docrep_operand txt q) ([], replicate (length q) False)
                       [0..<length q])
      in if length doc > 0 then Some (qsort_arg compareDocR doc) else None)"

subsection \<open>The cover search\<close>

text \<open>
  The query evaluator \<^verbatim>\<open>TS_execute\<close> is not among the sources. The cover search takes
  it as a parameter: a function of the query, of the array \<^verbatim>\<open>operandexist\<close> that the
  callback \<^verbatim>\<open>check_condition_query_operand\<close> reads, and of the flag passed as third
  argument.
\<close>

type_synonym evaluator = "TSQuery \<Rightarrow> bool list \<Rightarrow> bool \<Rightarrow> bool"

record Extention =
  ext_pos :: nat
  ext_p :: int
  ext_q :: int
  ext_begin :: "nat option"
  ext_end :: "nat option"

text \<open>\<^verbatim>\<open>QR_SET_OPERAND_EXISTS\<close> for the items of an occurrence that are operands.\<close>

definition set_operand_exists :: "TSQuery \<Rightarrow> bool list \<Rightarrow> nat list \<Rightarrow> bool list" where
  "set_operand_exists q operandexist items =
     foldl (\<lambda>ex k. case q ! k of QI_VAL v \<Rightarrow> ex[k := True] | QI_OPR opr \<Rightarrow> ex)
       operandexist items"

text \<open>
  The upward scan from \<^verbatim>\<open>ptr\<close>. It stops at the first occurrence where the query
  holds; the cover's upper end is found only if that occurrence's position is above
  \<^verbatim>\<open>ext->q\<close>, which is 0 there. The result is \<^verbatim>\<open>lastpos\<close> when \<^verbatim>\<open>found\<close>.
\<close>

function cover_up ::
  "evaluator \<Rightarrow> TSQuery \<Rightarrow> DocRepresentation list \<Rightarrow> bool list \<Rightarrow> nat \<Rightarrow> nat option" where
  "cover_up ev q doc operandexist ptr =
     (if ptr < length doc then
        (if ev q (set_operand_exists q operandexist (dr_item (doc ! ptr))) False
         then (if dr_pos (doc ! ptr) > 0 then Some ptr else None)
         else cover_up ev q doc (set_operand_exists q operandexist (dr_item (doc ! ptr)))
                (ptr + 1))
      else None)"
  by pat_completeness auto
termination
  by (relation "measure (\<lambda>(ev, q, doc, ex, ptr). length doc - ptr)") auto

declare cover_up.simps [simp del]

text \<open>
  The downward scan from \<^verbatim>\<open>lastpos\<close> to \<^verbatim>\<open>ext->pos\<close>. The result is the final
  \<^verbatim>\<open>ptr\<close> (as an index, \<open>lo - 1\<close> when the loop ran out) and whether the loop
  left through its \<^verbatim>\<open>break\<close>.
\<close>

function cover_down ::
  "evaluator \<Rightarrow> TSQuery \<Rightarrow> DocRepresentation list \<Rightarrow> bool list \<Rightarrow> int \<Rightarrow> int \<Rightarrow> int \<times> bool" where
  "cover_down ev q doc operandexist lo ptr =
     (if ptr \<ge> lo then
        (if ev q (set_operand_exists q operandexist (dr_item (doc ! nat ptr))) True
         then (ptr, True)
         else cover_down ev q doc (set_operand_exists q operandexist (dr_item (doc ! nat ptr)))
                lo (ptr - 1))
      else (ptr, False))"
  by pat_completeness auto
termination
  by (relation "measure (\<lambda>(ev, q, doc, ex, lo, ptr). nat (ptr - lo + 1))") auto

declare cover_down.simps [simp del]

lemma cover_up_bounds:
  "cover_up ev q doc operandexist ptr = Some u \<Longrightarrow> ptr \<le> u \<and> u < length doc \<and> 0 < dr_pos (doc ! u)"
proof (induction ev q doc operandexist ptr rule: cover_up.induct)
  case (1 ev q doc operandexist ptr)
  show ?case
  proof (cases "ptr < length doc")
    case False
    with "1.prems" show ?thesis by (simp add: cover_up.simps)
  next
    case True
    show ?thesis
    proof (cases "ev q (set_operand_exists q operandexist (dr_item (doc ! ptr))) False")
      case yes: True
      with True "1.prems" show ?thesis
        by (simp add: cover_up.simps split: if_splits)
    next
      case no: False
      with True "1.prems"
      have "cover_up ev q doc (set_operand_exists q operandexist (dr_item (doc ! ptr))) (ptr + 1) = Some u"
        by (simp add: cover_up.simps)
      from "1.IH"[OF True no this] show ?thesis by simp
    qed
  qed
qed

text \<open>
  One attempt of \<^verbatim>\<open>cover\<close>, from its entry to its \<^verbatim>\<open>return\<close> or to its
  recursive call: both scans start from a cleared \<^verbatim>\<open>operandexist\<close>. An attempt
  returns a flag and the \<^verbatim>\<open>Extention\<close>, or asks for the next attempt with the
  \<^verbatim>\<open>Extention\<close> it passes on.
\<close>

datatype attempt = Return bool Extention | Retry Extention

definition cover_attempt ::
  "evaluator \<Rightarrow> TSQuery \<Rightarrow> DocRepresentation list \<Rightarrow> Extention \<Rightarrow> attempt" where
  "cover_attempt ev q doc ext =
     (case cover_up ev q doc (replicate (length q) False) (ext_pos ext) of
        None \<Rightarrow> Return False (ext\<lparr>ext_p := 0x7fffffff, ext_q := 0\<rparr>)
      | Some lastpos \<Rightarrow>
          (case cover_down ev q doc (replicate (length q) False)
                  (int (ext_pos ext)) (int lastpos) of
             (ptr, hit) \<Rightarrow>
               (let ext' =
                      (if hit \<and> dr_pos (doc ! nat ptr) < 0x7fffffff
                       then ext\<lparr>ext_p := dr_pos (doc ! nat ptr),
                                ext_q := dr_pos (doc ! lastpos),
                                ext_begin := Some (nat ptr),
                                ext_end := Some lastpos\<rparr>
                       else ext\<lparr>ext_p := 0x7fffffff,
                                ext_q := dr_pos (doc ! lastpos),
                                ext_end := Some lastpos\<rparr>)
                in if ext_p ext' \<le> ext_q ext'
                   then Return True (ext'\<lparr>ext_pos := nat (ptr + 1)\<rparr>)
                   else Retry (ext'\<lparr>ext_pos := ext_pos ext + 1\<rparr>))))"

lemma cover_attempt_Retry:
  assumes "cover_attempt ev q doc ext = Retry e"
  shows "ext_pos e = ext_pos ext + 1 \<and> ext_pos ext < length doc"
proof -
  from assms obtain lastpos where
    up: "cover_up ev q doc (replicate (length q) False) (ext_pos ext) = Some lastpos"
    by (auto simp: cover_attempt_def split: option.splits)
  from cover_up_bounds[OF up] have "ext_pos ext < length doc" by simp
  moreover from assms up have "ext_pos e = ext_pos ext + 1"
    by (auto simp: cover_attempt_def Let_def split: prod.splits if_splits)
  ultimately show ?thesis by simp
qed

text \<open>\<^verbatim>\<open>cover\<close>: the attempts, repeated by the tail call of the source.\<close>

function cover :: "evaluator \<Rightarrow> TSQuery \<Rightarrow> DocRepresentation list \<Rightarrow> Extention \<Rightarrow> bool \<times> Extention" where
  "cover ev q doc ext =
     (case cover_attempt ev q doc ext of
        Return found e \<Rightarrow> (found, e)
      | Retry e \<Rightarrow> cover ev q doc e)"
  by pat_completeness auto
termination
  by (relation "measure (\<lambda>(ev, q, doc, ext). length doc - ext_pos ext)")
    (auto dest: cover_attempt_Retry)

declare cover.simps [simp del]

text \<open>
  The same attempts under a counter, the iteration the spec asks of an implementation:
  \<open>None\<close> when the counter runs out.
\<close>

fun cover_bounded ::
  "nat \<Rightarrow> evaluator \<Rightarrow> TSQuery \<Rightarrow> DocRepresentation list \<Rightarrow> Extention \<Rightarrow> (bool \<times> Extention) option" where
  "cover_bounded 0 ev q doc ext = None"
| "cover_bounded (Suc n) ev q doc ext =
     (case cover_attempt ev q doc ext of
        Return found e \<Rightarrow> Some (found, e)
      | Retry e \<Rightarrow> cover_bounded n ev q doc e)"


subsection \<open>The cover-density ranker\<close>

text \<open>C's integer division by 2, which truncates towards zero.\<close>

definition half :: "int \<Rightarrow> int" where
  "half x = sgn x * (\<bar>x\<bar> div 2)"

text \<open>
  The body of the loop over the covers in \<^verbatim>\<open>calc_rank_cd\<close>. The state is
  (\<^verbatim>\<open>wdoc\<close>, \<^verbatim>\<open>sum_dist\<close>, \<^verbatim>\<open>prev_ext_pos\<close>, \<^verbatim>\<open>n_ext_ent\<close>). The pointers
  \<^verbatim>\<open>ext.begin\<close> and \<^verbatim>\<open>ext.end\<close> are read after a successful \<^verbatim>\<open>cover\<close>, which has
  set them; the state is left as it is should one of them be \<^verbatim>\<open>NULL\<close>.
\<close>

definition cd_extent ::
  "real list \<Rightarrow> DocRepresentation list \<Rightarrow> Extention \<Rightarrow> real \<times> real \<times> real \<times> nat
     \<Rightarrow> real \<times> real \<times> real \<times> nat" where
  "cd_extent invws doc ext st =
     (case st of
        (wdoc, sum_dist, prev_ext_pos, n_ext_ent) \<Rightarrow>
          (case ext_begin ext of
             None \<Rightarrow> st
           | Some b \<Rightarrow>
               (case ext_end ext of
                  None \<Rightarrow> st
                | Some e \<Rightarrow>
                    (let inv_sum = sum_list (map (\<lambda>ptr. invws ! dr_wclass (doc ! ptr)) [b..<e + 1]);
                         cpos = real_of_int (int e - int b + 1) / inv_sum;
                         n_noise = (if (ext_q ext - ext_p ext) - (int e - int b) < 0
                                    then half (int e - int b)
                                    else (ext_q ext - ext_p ext) - (int e - int b));
                         cur_ext_pos = real_of_int (ext_q ext + ext_p ext) / 2
                     in (wdoc + cpos / real_of_int (1 + n_noise),
                         if n_ext_ent > 0 \<and> cur_ext_pos > prev_ext_pos
                         then sum_dist + 1 / (cur_ext_pos - prev_ext_pos) else sum_dist,
                         cur_ext_pos,
                         n_ext_ent + 1)))))"

text \<open>
  The loop \<^verbatim>\<open>while (cover(doc, doclen, &qr, &ext))\<close>. Nothing in the code bounds the
  number of its rounds, so the model is a partial function: \<open>None\<close> stands for a loop
  that does not end.
\<close>

partial_function (option) cover_loop ::
  "evaluator \<Rightarrow> TSQuery \<Rightarrow> DocRepresentation list \<Rightarrow> real list \<Rightarrow> Extention
     \<Rightarrow> real \<times> real \<times> real \<times> nat \<Rightarrow> (real \<times> real \<times> real \<times> nat) option" where
  "cover_loop ev q doc invws ext st =
     (if fst (cover ev q doc ext)
      then cover_loop ev q doc invws (snd (cover ev q doc ext))
             (cd_extent invws doc (snd (cover ev q doc ext)) st)
      else Some st)"

text \<open>The normalisations of \<^verbatim>\<open>calc_rank_cd\<close>, in the order of the source.\<close>

definition cd_normalise :: "32 word \<Rightarrow> TSVector \<Rightarrow> real \<times> real \<times> real \<times> nat \<Rightarrow> real" where
  "cd_normalise method' txt st =
     (case st of
        (wdoc, sum_dist, prev_ext_pos, n_ext_ent) \<Rightarrow>
          (let w1 = (if method' AND 0x01 \<noteq> 0 \<and> length txt > 0
                     then wdoc / ln (real (cnt_length txt + 1)) else wdoc);
               w2 = (if method' AND 0x02 \<noteq> 0
                     then (let len = cnt_length txt in if len > 0 then w1 / real len else w1)
                     else w1);
               w3 = (if method' AND 0x04 \<noteq> 0 \<and> n_ext_ent > 0 \<and> sum_dist > 0
                     then w2 / (real n_ext_ent / sum_dist) else w2);
               w4 = (if method' AND 0x08 \<noteq> 0 \<and> length txt > 0
                     then w3 / real (length txt) else w3);
               w5 = (if method' AND 0x10 \<noteq> 0 \<and> length txt > 0
                     then w4 / (ln (real (length txt + 1)) / ln 2) else w4)
           in if method' AND 0x20 \<noteq> 0 then w5 / (w5 + 1) else w5))"

text \<open>
  \<^verbatim>\<open>calc_rank_cd\<close>. The first loop checks the weights and inverts them; a weight of 0
  gives an infinite inverse in C and the inverse 0 here, which no statement below relies
  on. The result is \<open>None\<close> when the loop over the covers does not end, an error, or
  the score.
\<close>

definition calc_rank_cd ::
  "evaluator \<Rightarrow> real list \<Rightarrow> TSVector \<Rightarrow> TSQuery \<Rightarrow> 32 word \<Rightarrow> (error + real) option" where
  "calc_rank_cd ev arrdata txt query method' =
     (case check_weights (map (\<lambda>i. arrdata ! i) [0..<length weights]) weights of
        Inl e \<Rightarrow> Some (Inl e)
      | Inr ws \<Rightarrow>
          (case get_docrep txt query of
             None \<Rightarrow> Some (Inr 0)
           | Some doc \<Rightarrow>
               (case cover_loop ev query doc (map (\<lambda>x. 1 / x) ws)
                       \<lparr>ext_pos = 0, ext_p = 0, ext_q = 0, ext_begin = None, ext_end = None\<rparr>
                       (0, 0, 0, 0) of
                  None \<Rightarrow> None
                | Some st \<Rightarrow> Some (Inr (cd_normalise method' txt st)))))"

definition ts_rankcd_wttf ::
  "evaluator \<Rightarrow> ArrayType \<Rightarrow> TSVector \<Rightarrow> TSQuery \<Rightarrow> 32 word \<Rightarrow> (error + real) option" where
  "ts_rankcd_wttf ev win txt query method' =
     (case get_weights (Some win) of
        Inl e \<Rightarrow> Some (Inl e)
      | Inr w \<Rightarrow> calc_rank_cd ev w txt query method')"

definition ts_rankcd_wtt ::
  "evaluator \<Rightarrow> ArrayType \<Rightarrow> TSVector \<Rightarrow> TSQuery \<Rightarrow> (error + real) option" where
  "ts_rankcd_wtt ev win txt query =
     (case get_weights (Some win) of
        Inl e \<Rightarrow> Some (Inl e)
      | Inr w \<Rightarrow> calc_rank_cd ev w txt query 0)"

definition ts_rankcd_ttf ::
  "evaluator \<Rightarrow> TSVector \<Rightarrow> TSQuery \<Rightarrow> 32 word \<Rightarrow> (error + real) option" where
  "ts_rankcd_ttf ev txt query method' =
     (case get_weights None of
        Inl e \<Rightarrow> Some (Inl e)
      | Inr w \<Rightarrow> calc_rank_cd ev w txt query method')"

definition ts_rankcd_tt :: "evaluator \<Rightarrow> TSVector \<Rightarrow> TSQuery \<Rightarrow> (error + real) option" where
  "ts_rankcd_tt ev txt query =
     (case get_weights None of
        Inl e \<Rightarrow> Some (Inl e)
      | Inr w \<Rightarrow> calc_rank_cd ev w txt query 0)"

subsection \<open>A query evaluator\<close>

text \<open>
  Modelled from the spec: the recursion of \<^verbatim>\<open>TS_execute\<close> (defined in
  \<^verbatim>\<open>tsvector_op.c\<close>, not among the sources). The spec describes an evaluator that
  honours the AND, OR and NOT of the query tree, asks the callback whether an operand is
  present, and lets an operand that is not present evaluate to the flag it is given
  (false going up, true going down). The query is the tree flattened with an operator
  before its operands; the evaluation returns the value of the subtree at index \<open>i\<close>
  and the index behind it, and its first argument bounds the depth of the recursion.
\<close>

fun ts_eval :: "nat \<Rightarrow> TSQuery \<Rightarrow> bool list \<Rightarrow> bool \<Rightarrow> nat \<Rightarrow> bool \<times> nat" where
  "ts_eval 0 q operandexist flag i = (False, i)"
| "ts_eval (Suc fuel) q operandexist flag i =
     (if i \<ge> length q then (False, i)
      else (case q ! i of
              QI_VAL v \<Rightarrow> (operandexist ! i \<or> flag, i + 1)
            | QI_OPR OP_NOT \<Rightarrow>
                (case ts_eval fuel q operandexist flag (i + 1) of (a, j) \<Rightarrow> (\<not> a, j))
            | QI_OPR OP_AND \<Rightarrow>
                (case ts_eval fuel q operandexist flag (i + 1) of
                   (a, j) \<Rightarrow>
                     (case ts_eval fuel q operandexist flag j of (b, k) \<Rightarrow> (a \<and> b, k)))
            | QI_OPR OP_OR \<Rightarrow>
                (case ts_eval fuel q operandexist flag (i + 1) of
                   (a, j) \<Rightarrow>
                     (case ts_eval fuel q operandexist flag j of (b, k) \<Rightarrow> (a \<or> b, k)))))"

text \<open>
  Modelled from the spec: \<^verbatim>\<open>TS_execute\<close> on the whole query, whose depth is below its
  length. It is needed only to run the rankers on concrete inputs; every general
  statement about \<^verbatim>\<open>cover\<close> and \<^verbatim>\<open>calc_rank_cd\<close> below holds for any evaluator.
\<close>

definition TS_execute :: evaluator where
  "TS_execute q operandexist flag = fst (ts_eval (length q) q operandexist flag 0)"


section \<open>Properties\<close>

subsection \<open>Example data\<close>

text \<open>
  Position words used in the examples: \<open>0xC001\<close> is position 1 in class 3,
  \<open>0x8005\<close> position 5 in class 2, \<open>0x4009\<close> position 9 in class 1,
  \<open>0xC005\<close> position 5 in class 3.
\<close>

definition vec_S1 :: TSVector where
  "vec_S1 = [\<lparr>lexeme = ''cat'', haspos = True, posvec = [0xC005]\<rparr>]"

definition vec_S6 :: TSVector where
  "vec_S6 = [\<lparr>lexeme = ''cat'', haspos = True, posvec = [0xC001]\<rparr>,
             \<lparr>lexeme = ''catch'', haspos = True, posvec = [0x8005]\<rparr>,
             \<lparr>lexeme = ''dog'', haspos = True, posvec = [0x4009]\<rparr>]"

definition query_cat :: TSQuery where
  "query_cat = [QI_VAL \<lparr>operand = ''cat'', is_prefix = False\<rparr>]"

definition query_cat_prefix :: TSQuery where
  "query_cat_prefix = [QI_VAL \<lparr>operand = ''cat'', is_prefix = True\<rparr>]"

definition array_of :: "real list \<Rightarrow> ArrayType" where
  "array_of ws = \<lparr>ARR_NDIM = 1, ARR_NITEMS = length ws, ARR_HASNULL = False, ARR_DATA = ws\<rparr>"

subsection \<open>Lexeme lookup\<close>

text \<open>
  What the spec asks of the lookup, in its words: an operand matches an entry when the
  entry's lexeme equals it, or begins with it for a prefix operand; the vector is sorted
  ascending by lexeme with no lexeme twice.
\<close>

definition lexeme_matches :: "QueryOperand \<Rightarrow> WordEntry \<Rightarrow> bool" where
  "lexeme_matches item e =
     (if is_prefix item then prefix (operand item) (lexeme e) else lexeme e = operand item)"

definition vector_sorted :: "TSVector \<Rightarrow> bool" where
  "vector_sorted t = sorted_wrt (\<lambda>x y. tsCompareString (lexeme x) (lexeme y) False < 0) t"

lemma Nil_less_iff: "[] < (ys::string) \<longleftrightarrow> ys \<noteq> []"
  by (cases ys) auto

lemma memcmp_less: "tsCompareString a b False < 0 \<longleftrightarrow> a < b"
  apply (induction a b rule: memcmp.induct)
  apply (auto simp: tsCompareString_def Let_def less_char_def Nil_less_iff split: if_splits)
  done

lemma memcmp_eq: "tsCompareString a b False = 0 \<longleftrightarrow> a = b"
  apply (induction a b rule: memcmp.induct)
  apply (auto simp: tsCompareString_def Let_def less_char_def Nil_less_iff split: if_splits)
  done

lemma memcmp_gr: "tsCompareString a b False > 0 \<longleftrightarrow> b < a"
  using memcmp_less[of a b] memcmp_eq[of a b] by (metis not_less_iff_gr_or_eq)

lemma cmp_prefix: "tsCompareString a b True = 0 \<longleftrightarrow> prefix a b"
  apply (induction a b rule: memcmp.induct)
  apply (auto simp: tsCompareString_def Let_def less_char_def Nil_less_iff split: if_splits)
  done

lemma prefix_le: "prefix a b \<Longrightarrow> a \<le> (b::string)"
  apply (induction a arbitrary: b)
   apply simp
  apply (case_tac b)
  apply auto
  done

lemma prefix_between: "a < b \<Longrightarrow> b < c \<Longrightarrow> prefix a c \<Longrightarrow> prefix a (b::string)"
  apply (induction a arbitrary: b c)
   apply simp
  apply (case_tac b; case_tac c)
  apply auto
  done


lemma find_loop_shape:
  "find_loop t item lo hi mid = (lo', hi', mid', n) \<Longrightarrow> hi \<le> length t \<Longrightarrow>
     hi' \<le> length t \<and>
     ((n = 1 \<and> mid' = hi' \<and> hi' < length t \<and> lexeme (t ! hi') = operand item)
      \<or> (n = 0 \<and> hi' \<le> lo'))"
proof (induction t item lo hi mid rule: find_loop.induct)
  case (1 t item lo hi mid)
  let ?m = "lo + (hi - lo) div 2"
  show ?case
  proof (cases "lo < hi")
    case False
    with "1.prems" show ?thesis by (simp add: find_loop.simps split: if_splits)
  next
    case True
    then have m: "?m < hi" "lo \<le> ?m" by auto
    consider (eq) "WordECompareQueryItem (t ! ?m) item False = 0"
      | (gt) "WordECompareQueryItem (t ! ?m) item False > 0"
      | (lt) "WordECompareQueryItem (t ! ?m) item False < 0" by linarith
    then show ?thesis
    proof cases
      case eq
      then have "operand item = lexeme (t ! ?m)"
        by (simp add: WordECompareQueryItem_def memcmp_eq)
      with eq True "1.prems" m show ?thesis
        by (subst (asm) find_loop.simps) auto
    next
      case gt
      with True "1.prems" have "find_loop t item (?m + 1) hi ?m = (lo', hi', mid', n)"
        by (subst (asm) find_loop.simps) auto
      with "1.IH"(1)[OF True _ gt] gt "1.prems"(2) show ?thesis by auto
    next
      case lt
      with True "1.prems" have "find_loop t item lo ?m ?m = (lo', hi', mid', n)"
        by (subst (asm) find_loop.simps) auto
      moreover have "?m \<le> length t" using m "1.prems"(2) by linarith
      ultimately show ?thesis using "1.IH"(2)[OF True] lt by auto
    qed
  qed
qed


lemma find_loop_sorted:
  "find_loop t item lo hi mid = (lo', hi', mid', n) \<Longrightarrow> lo \<le> hi \<Longrightarrow> hi \<le> length t \<Longrightarrow>
   \<forall>i j. i < j \<longrightarrow> j < length t \<longrightarrow> lexeme (t ! i) < lexeme (t ! j) \<Longrightarrow>
   \<forall>i<lo. lexeme (t ! i) < operand item \<Longrightarrow>
   \<forall>i. hi \<le> i \<longrightarrow> i < length t \<longrightarrow> operand item < lexeme (t ! i) \<Longrightarrow>
   (\<forall>i<hi'. lexeme (t ! i) < operand item) \<and>
   (n = 0 \<longrightarrow> (\<forall>i. hi' \<le> i \<longrightarrow> i < length t \<longrightarrow> operand item < lexeme (t ! i)))"
proof (induction t item lo hi mid rule: find_loop.induct)
  case (1 t item lo hi mid)
  let ?m = "lo + (hi - lo) div 2"
  let ?s = "operand item"
  note srt = "1.prems"(4)
  show ?case
  proof (cases "lo < hi")
    case False
    with "1.prems" show ?thesis by (auto simp: find_loop.simps split: if_splits)
  next
    case True
    then have m: "?m < hi" "lo \<le> ?m" by auto
    then have ml: "?m < length t" using "1.prems"(3) by linarith
    consider (eq) "WordECompareQueryItem (t ! ?m) item False = 0"
      | (gt) "WordECompareQueryItem (t ! ?m) item False > 0"
      | (lt) "WordECompareQueryItem (t ! ?m) item False < 0" by linarith
    then show ?thesis
    proof cases
      case eq
      then have e: "?s = lexeme (t ! ?m)"
        by (simp add: WordECompareQueryItem_def memcmp_eq)
      from eq True "1.prems"(1) have r: "hi' = ?m" "n = 1"
        by (subst (asm) find_loop.simps, simp)+
      have "\<forall>i<?m. lexeme (t ! i) < ?s" using srt ml e by auto
      with r show ?thesis by simp
    next
      case gt
      then have g: "lexeme (t ! ?m) < ?s"
        by (simp add: WordECompareQueryItem_def memcmp_gr)
      from gt True "1.prems"(1) have eq: "find_loop t item (?m + 1) hi ?m = (lo', hi', mid', n)"
        by (subst (asm) find_loop.simps) auto
      have lo: "\<forall>i<?m + 1. lexeme (t ! i) < ?s"
      proof (intro allI impI)
        fix i assume "i < ?m + 1"
        then consider "i = ?m" | "i < ?m" by linarith
        then show "lexeme (t ! i) < ?s"
        proof cases
          case 1 then show ?thesis using g by simp
        next
          case 2 then have "lexeme (t ! i) < lexeme (t ! ?m)" using srt ml by blast
          then show ?thesis using g by (rule less_trans)
        qed
      qed
      have "?m + 1 \<le> hi" using m by linarith
      from "1.IH"(1)[OF True _ gt eq this "1.prems"(3) srt lo "1.prems"(6)] gt
      show ?thesis by simp
    next
      case lt
      then have l: "?s < lexeme (t ! ?m)"
        by (simp add: WordECompareQueryItem_def memcmp_less)
      from lt True "1.prems"(1) have eq: "find_loop t item lo ?m ?m = (lo', hi', mid', n)"
        by (subst (asm) find_loop.simps) auto
      have hi: "\<forall>i. ?m \<le> i \<longrightarrow> i < length t \<longrightarrow> ?s < lexeme (t ! i)"
      proof (intro allI impI)
        fix i assume a: "?m \<le> i" "i < length t"
        then consider "i = ?m" | "?m < i" by linarith
        then show "?s < lexeme (t ! i)"
        proof cases
          case 1 then show ?thesis using l by simp
        next
          case 2 then have "lexeme (t ! ?m) < lexeme (t ! i)" using srt a by blast
          with l show ?thesis by (rule less_trans)
        qed
      qed
      have n0: "\<not> WordECompareQueryItem (t ! ?m) item False = 0" 
               "\<not> 0 < WordECompareQueryItem (t ! ?m) item False" using lt by auto
      have "?m \<le> length t" using ml by simp
      from "1.IH"(2)[OF True n0 eq m(2) this srt "1.prems"(5) hi]
      show ?thesis by simp
    qed
  qed
qed

lemma prefix_run_eq:
  "prefix_run t item m n =
     n + length (takeWhile (\<lambda>e. prefix (operand item) (lexeme e)) (drop m t))"
proof (induction t item m n rule: prefix_run.induct)
  case (1 t item m n)
  show ?case
  proof (cases "m < length t \<and> WordECompareQueryItem (t ! m) item True = 0")
    case True
    then have p: "prefix (operand item) (lexeme (t ! m))"
      by (simp add: WordECompareQueryItem_def cmp_prefix)
    have d: "drop m t = t ! m # drop (m + 1) t"
      using True by (simp add: Cons_nth_drop_Suc)
    from True have "prefix_run t item m n = prefix_run t item (m + 1) (n + 1)"
      by (subst prefix_run.simps) simp
    also have "\<dots> = n + 1 + length (takeWhile (\<lambda>e. prefix (operand item) (lexeme e)) (drop (m + 1) t))"
      using "1.IH" True by simp
    finally show ?thesis using p d by simp
  next
    case False
    then have r: "prefix_run t item m n = n"
      by (subst prefix_run.simps) auto
    show ?thesis
    proof (cases "m < length t")
      case True
      with False have "\<not> prefix (operand item) (lexeme (t ! m))"
        by (simp add: WordECompareQueryItem_def cmp_prefix)
      moreover have "drop m t = t ! m # drop (m + 1) t"
        using True by (simp add: Cons_nth_drop_Suc)
      ultimately show ?thesis using r by simp
    next
      case False
      then show ?thesis using r by simp
    qed
  qed
qed


lemma in_set_drop_nth:
  assumes "e \<in> set (drop n xs)"
  shows "\<exists>i. n \<le> i \<and> i < length xs \<and> e = xs ! i"
proof -
  from assms obtain k where k: "k < length (drop n xs)" "drop n xs ! k = e"
    by (auto simp: in_set_conv_nth)
  then have "n \<le> n + k \<and> n + k < length xs \<and> e = xs ! (n + k)" by auto
  then show ?thesis by blast
qed

lemma vector_sorted_nth:
  "vector_sorted t \<Longrightarrow> i < j \<Longrightarrow> j < length t \<Longrightarrow> lexeme (t ! i) < lexeme (t ! j)"
  by (simp add: vector_sorted_def memcmp_less sorted_wrt_iff_nth_less)

lemma filter_prefix_sorted:
  "sorted_wrt (\<lambda>x y. lexeme x < lexeme y) xs \<Longrightarrow> \<forall>x\<in>set xs. s \<le> lexeme x \<Longrightarrow>
   filter (\<lambda>e. prefix s (lexeme e)) xs = takeWhile (\<lambda>e. prefix s (lexeme e)) xs"
proof (induction xs)
  case Nil
  then show ?case by simp
next
  case (Cons x xs)
  show ?case
  proof (cases "prefix s (lexeme x)")
    case True
    with Cons show ?thesis by simp
  next
    case False
    then have "s \<noteq> lexeme x" by auto
    with Cons.prems(2) have sx: "s < lexeme x" by auto
    have "\<not> prefix s (lexeme y)" if "y \<in> set xs" for y
    proof
      assume p: "prefix s (lexeme y)"
      from that Cons.prems(1) have "lexeme x < lexeme y" by auto
      from prefix_between[OF sx this p] False show False by simp
    qed
    then have "filter (\<lambda>e. prefix s (lexeme e)) xs = []" by (simp add: filter_empty_conv)
    with False show ?thesis by simp
  qed
qed

text \<open>
  Claim C6. On a sorted vector without duplicates, \<^verbatim>\<open>find_wordentry\<close> returns
  \<^verbatim>\<open>NULL\<close> exactly when the count is 0; without the prefix flag the count is 0 or
  1; and the entries of the returned run \<open>[first, first + count)\<close> are, in order,
  exactly the entries that a linear scan of the whole vector finds to match the operand
  (equal lexeme, or lexeme beginning with the operand under the prefix flag).
\<close>

theorem find_wordentry_run:
  assumes srt: "vector_sorted t"
    and res: "find_wordentry t item = (first, nitem)"
  shows "(first = None \<longleftrightarrow> nitem = 0) \<and>
         (\<not> is_prefix item \<longrightarrow> nitem \<le> 1) \<and>
         (case first of
            None \<Rightarrow> filter (lexeme_matches item) t = []
          | Some f \<Rightarrow> f + nitem \<le> length t \<and>
                      take nitem (drop f t) = filter (lexeme_matches item) t)"
proof -
  let ?s = "operand item"
  obtain lo hi mid n where fl: "find_loop t item 0 (length t) (length t) = (lo, hi, mid, n)"
    by (metis prod_cases4)
  from find_loop_shape[OF fl] have shape: "hi \<le> length t"
    "(n = 1 \<and> mid = hi \<and> hi < length t \<and> lexeme (t ! hi) = ?s) \<or> (n = 0 \<and> hi \<le> lo)"
    by auto
  have nth: "\<forall>i j. i < j \<longrightarrow> j < length t \<longrightarrow> lexeme (t ! i) < lexeme (t ! j)"
    using vector_sorted_nth[OF srt] by blast
  from find_loop_sorted[OF fl _ _ nth] have
    below: "\<forall>i<hi. lexeme (t ! i) < ?s" and
    above0: "n = 0 \<longrightarrow> (\<forall>i. hi \<le> i \<longrightarrow> i < length t \<longrightarrow> ?s < lexeme (t ! i))"
    by auto
  have above: "\<forall>i. hi \<le> i \<longrightarrow> i < length t \<longrightarrow> ?s \<le> lexeme (t ! i)"
  proof (intro allI impI)
    fix i assume a: "hi \<le> i" "i < length t"
    show "?s \<le> lexeme (t ! i)"
    proof (cases "n = 0")
      case True with above0 a show ?thesis by (simp add: less_imp_le)
    next
      case False
      with shape have e: "lexeme (t ! hi) = ?s" by auto
      show ?thesis
      proof (cases "i = hi")
        case True with e show ?thesis by simp
      next
        case False
        with a have "hi < i" by simp
        with nth a e show ?thesis by (metis less_imp_le)
      qed
    qed
  qed
  have split3: "t = take hi t @ drop hi t" by simp
  show ?thesis
  proof (cases "is_prefix item")
    case True
    let ?P = "\<lambda>e. prefix ?s (lexeme e)"
    let ?c = "length (takeWhile ?P (drop hi t))"
    have mid': "(if hi \<le> lo then hi else mid) = hi" using shape by auto
    from res fl True have r: "first = (if ?c > 0 then Some hi else None)" "nitem = ?c"
      by (auto simp add: find_wordentry_def Let_def mid' prefix_run_eq)
    have P: "lexeme_matches item = ?P" using True by (auto simp: lexeme_matches_def)
    have lowpart: "filter ?P (take hi t) = []"
    proof -
      have "\<not> ?P e" if "e \<in> set (take hi t)" for e
      proof -
        from that obtain i where "i < hi" "i < length t" "e = t ! i"
          by (auto simp: in_set_conv_nth)
        with below have "lexeme e < ?s" by simp
        then show ?thesis using prefix_le[of ?s "lexeme e"] by auto
      qed
      then show ?thesis by (simp add: filter_empty_conv)
    qed
    have srt_drop: "sorted_wrt (\<lambda>x y. lexeme x < lexeme y) (drop hi t)"
      using srt by (simp add: vector_sorted_def memcmp_less sorted_wrt_drop)
    have ge_drop: "\<forall>x\<in>set (drop hi t). ?s \<le> lexeme x"
      using above by (auto dest!: in_set_drop_nth)
    have "filter ?P t = filter ?P (take hi t) @ filter ?P (drop hi t)"
      by (subst split3) (simp only: filter_append)
    also have "\<dots> = takeWhile ?P (drop hi t)"
      using lowpart filter_prefix_sorted[OF srt_drop ge_drop] by simp
    also have "\<dots> = take ?c (drop hi t)"
      by (rule takeWhile_eq_take)
    finally have fil: "filter ?P t = take ?c (drop hi t)" .
    have "?c \<le> length (drop hi t)" by (rule length_takeWhile_le)
    then have len: "hi + ?c \<le> length t" using shape(1) by simp
    show ?thesis using r P fil len True by auto
  next
    case False
    let ?P = "\<lambda>e. lexeme e = ?s"
    from res fl False have r: "first = (if n > 0 then Some hi else None)" "nitem = n"
      by (auto simp add: find_wordentry_def)
    have P: "lexeme_matches item = ?P" using False by (auto simp: lexeme_matches_def)
    have lowpart: "filter ?P (take hi t) = []"
    proof -
      have "\<not> ?P e" if "e \<in> set (take hi t)" for e
      proof -
        from that obtain i where "i < hi" "i < length t" "e = t ! i"
          by (auto simp: in_set_conv_nth)
        with below have "lexeme e < ?s" by simp
        then show ?thesis by auto
      qed
      then show ?thesis by (simp add: filter_empty_conv)
    qed
    from shape(2) show ?thesis
    proof
      assume a: "n = 1 \<and> mid = hi \<and> hi < length t \<and> lexeme (t ! hi) = ?s"
      have hipart: "filter ?P (drop (Suc hi) t) = []"
      proof -
        have "\<not> ?P e" if "e \<in> set (drop (Suc hi) t)" for e
        proof -
          from in_set_drop_nth[OF that] obtain i where "hi < i" "i < length t" "e = t ! i"
            by (auto simp: Suc_le_eq)
          with nth a have "?s < lexeme e" by metis
          then show ?thesis by auto
        qed
        then show ?thesis by (simp add: filter_empty_conv)
      qed
      have "t = take hi t @ t ! hi # drop (Suc hi) t"
        using a by (simp add: id_take_nth_drop[symmetric])
      then have "filter ?P t = filter ?P (take hi t @ t ! hi # drop (Suc hi) t)" by simp
      also have "\<dots> = [t ! hi]" using lowpart hipart a by simp
      also have "\<dots> = take 1 (drop hi t)" using a 
        by (simp add: take_Suc_conv_app_nth Cons_nth_drop_Suc[symmetric])
      finally show ?thesis using r P a False by auto
    next
      assume a: "n = 0 \<and> hi \<le> lo"
      have hipart: "filter ?P (drop hi t) = []"
      proof -
        have "\<not> ?P e" if "e \<in> set (drop hi t)" for e
        proof -
          from in_set_drop_nth[OF that] obtain i where "hi \<le> i" "i < length t" "e = t ! i"
            by auto
          with above0 a have "?s < lexeme e" by simp
          then show ?thesis by auto
        qed
        then show ?thesis by (simp add: filter_empty_conv)
      qed
      have "filter ?P t = filter ?P (take hi t) @ filter ?P (drop hi t)"
        by (subst split3) (simp only: filter_append)
      with lowpart hipart have "filter ?P t = []" by simp
      then show ?thesis using r P a False by auto
    qed
  qed
qed

theorem find_wordentry_run_witness:
  "vector_sorted vec_S6
   \<and> find_wordentry vec_S6 \<lparr>operand = ''cat'', is_prefix = True\<rparr> = (Some 0, 2)
   \<and> take 2 (drop 0 vec_S6) = filter (lexeme_matches \<lparr>operand = ''cat'', is_prefix = True\<rparr>) vec_S6"
proof -
  have s: "vector_sorted vec_S6" by code_simp
  have f: "find_wordentry vec_S6 \<lparr>operand = ''cat'', is_prefix = True\<rparr> = (Some 0, 2)"
    by code_simp
  from find_wordentry_run[OF s f] s f show ?thesis by simp
qed


subsection \<open>Normalisation\<close>

lemma selfnorm_std: "rank_normalise 0x20 t r = r / (r + 1)"
  by (simp add: rank_normalise_def)

lemma selfnorm_cd: "cd_normalise 0x20 t (r, sd, pe, n) = r / (r + 1)"
  by (simp add: cd_normalise_def)

text \<open>
  Claim C9, as the code has it. The step for bit \<open>0x20\<close> maps a score \<open>r \<ge> 0\<close> to
  \<open>r / (r + 1)\<close> in both rankers. Applied twice it gives \<open>r / (2 r + 1)\<close>, which is the
  result of one application only for \<open>r = 0\<close> and is strictly smaller for \<open>r > 0\<close>:
  the step is not idempotent.
\<close>

theorem selfnorm_twice:
  assumes "0 \<le> r"
  shows "rank_normalise 0x20 t (rank_normalise 0x20 t r) = r / (2 * r + 1)
       \<and> cd_normalise 0x20 t (cd_normalise 0x20 t (r, sd, pe, n), sd, pe, n) = r / (2 * r + 1)
       \<and> (rank_normalise 0x20 t (rank_normalise 0x20 t r) = rank_normalise 0x20 t r \<longleftrightarrow> r = 0)
       \<and> (0 < r \<longrightarrow> rank_normalise 0x20 t (rank_normalise 0x20 t r) < rank_normalise 0x20 t r)"
proof -
  have nz: "r + 1 \<noteq> 0" "2 * r + 1 \<noteq> 0" using assms by auto
  have "r / (r + 1) + 1 = (2 * r + 1) / (r + 1)"
    using nz by (simp add: field_simps)
  then have tw: "(r / (r + 1)) / (r / (r + 1) + 1) = r / (2 * r + 1)"
    using nz by simp
  have lt: "r / (2 * r + 1) < r / (r + 1)" if "0 < r"
    using that by (simp add: field_simps)
  have eq: "r / (2 * r + 1) = r / (r + 1) \<longleftrightarrow> r = 0"
    using assms lt by (cases "r = 0") auto
  show ?thesis unfolding selfnorm_std selfnorm_cd tw using lt eq by blast
qed

theorem selfnorm_twice_witness:
  "(0::real) \<le> 1 \<and> rank_normalise 0x20 [] (rank_normalise 0x20 [] 1) = 1 / 3
     \<and> rank_normalise 0x20 [] 1 = 1 / 2"
  using selfnorm_twice[of 1 "[]" 0 0 0] by (simp add: selfnorm_std)

text \<open>
  The claim as stated fails at \<open>r = 1\<close>: one application gives \<open>1/2\<close>, two give
  \<open>1/3\<close>.
\<close>

theorem selfnorm_not_idempotent:
  "\<not> (rank_normalise 0x20 [] (rank_normalise 0x20 [] 1) = rank_normalise 0x20 [] 1)"
  by (simp add: selfnorm_std)

subsection \<open>Empty inputs\<close>

lemma check_weights_ok:
  "\<forall>x\<in>set a. x \<le> 1 \<Longrightarrow> \<forall>x\<in>set d. x \<le> 1 \<Longrightarrow> \<exists>ws. check_weights a d = Inr ws"
proof (induction a d rule: check_weights.induct)
  case (1 a arrdata d defaults)
  from "1.prems" have le: "\<not> (if a \<ge> 0 then a else d) > 1" by auto
  from "1.prems" have "\<forall>x\<in>set arrdata. x \<le> 1" "\<forall>x\<in>set defaults. x \<le> 1" by auto
  from "1.IH"[OF refl _ this] le obtain ws where "check_weights arrdata defaults = Inr ws" by blast
  with le show ?case by (simp add: Let_def)
qed auto

lemma weights_le_1: "\<forall>x\<in>set weights. x \<le> 1"
  by (simp add: weights_def)

lemma foldl_unchanged: "(\<And>x s. x \<in> set xs \<Longrightarrow> f s x = s) \<Longrightarrow> foldl f s xs = s"
  by (induction xs arbitrary: s) auto

lemma get_docrep_empty_vector: "get_docrep [] q = None"
proof -
  have "docrep_operand [] q st i = st" for st i
    by (simp add: docrep_operand_def find_wordentry_empty split: QueryItem.splits)
  then have "foldl (docrep_operand [] q) ([], replicate (length q) False) [0..<length q]
              = ([], replicate (length q) False)"
    by (intro foldl_unchanged) simp
  then show ?thesis by (simp add: get_docrep_def)
qed

lemma get_docrep_empty_query: "get_docrep t [] = None"
  by (simp add: get_docrep_def)

lemma calc_rank_cd_no_docrep:
  assumes "get_docrep txt query = None" "\<forall>i<4. arrdata ! i \<le> 1"
  shows "calc_rank_cd ev arrdata txt query m = Some (Inr 0)"
proof -
  have "\<forall>x\<in>set (map (\<lambda>i. arrdata ! i) [0..<length weights]). x \<le> 1"
    using assms(2) by (simp add: weights_def)
  from check_weights_ok[OF this weights_le_1]
  obtain ws where "check_weights (map (\<lambda>i. arrdata ! i) [0..<length weights]) weights = Inr ws"
    by blast
  with assms(1) show ?thesis by (simp add: calc_rank_cd_def)
qed

lemma check_weights_Cons:
  "check_weights (a # arrdata) (d # defaults) = Inr ws \<Longrightarrow>
     \<not> (if a \<ge> 0 then a else d) > 1 \<and>
     (\<exists>rest. check_weights arrdata defaults = Inr rest \<and> ws = (if a \<ge> 0 then a else d) # rest)"
  by (cases "check_weights arrdata defaults") (simp_all add: Let_def split: if_splits)

lemma check_weights_range:
  "check_weights a d = Inr ws \<Longrightarrow> \<forall>x\<in>set d. 0 \<le> x \<Longrightarrow> \<forall>x\<in>set ws. 0 \<le> x \<and> x \<le> 1"
proof (induction a d arbitrary: ws rule: check_weights.induct)
  case (1 a arrdata d defaults)
  let ?v = "if a \<ge> 0 then a else d"
  from check_weights_Cons[OF "1.prems"(1)] obtain rest where
    le: "\<not> ?v > 1" and r: "check_weights arrdata defaults = Inr rest" and ws: "ws = ?v # rest"
    by blast
  from "1.prems"(2) have d: "0 \<le> d" "\<forall>x\<in>set defaults. 0 \<le> x" by auto
  from "1.IH"[OF refl le r d(2)] have "\<forall>x\<in>set rest. 0 \<le> x \<and> x \<le> 1" .
  moreover have "0 \<le> ?v \<and> ?v \<le> 1" using le d(1) by auto
  ultimately show ?case using ws by simp
qed simp_all


lemma check_weights_length:
  "check_weights a d = Inr ws \<Longrightarrow> length ws = min (length a) (length d)"
proof (induction a d arbitrary: ws rule: check_weights.induct)
  case (1 a arrdata d defaults)
  from check_weights_Cons[OF "1.prems"] obtain rest where
    le: "\<not> (if a \<ge> 0 then a else d) > 1" and r: "check_weights arrdata defaults = Inr rest"
    and ws: "ws = (if a \<ge> 0 then a else d) # rest"
    by blast
  from "1.IH"[OF refl le r] ws show ?case by simp
qed simp_all

lemma get_weights_range:
  assumes "get_weights win = Inr w"
  shows "length w = 4 \<and> (\<forall>c<4. 0 \<le> w ! c \<and> w ! c \<le> 1)"
proof (cases win)
  case None
  with assms have "w = weights" by (simp add: get_weights_def)
  then show ?thesis by (simp add: weights_def nth_Cons')
next
  case (Some a)
  with assms have c: "check_weights (map (\<lambda>i. ARR_DATA a ! i) [0..<length weights]) weights = Inr w"
    by (auto simp: get_weights_def split: if_splits)
  from check_weights_length[OF c] have l: "length w = 4" by (simp add: weights_def)
  from check_weights_range[OF c] have "\<forall>x\<in>set w. 0 \<le> x \<and> x \<le> 1" by (simp add: weights_def)
  with l show ?thesis by (metis nth_mem)
qed

text \<open>
  Claim C1. With an empty vector or an empty query, \<^verbatim>\<open>calc_rank\<close> returns 0 for
  every weight table and every bitmask, and \<^verbatim>\<open>calc_rank_cd\<close> returns 0, and no
  error, for every bitmask, every evaluator and every weight table it is given: the
  function is static and its callers pass it what \<^verbatim>\<open>get_weights\<close> returned (the
  defaults, or the caller's array once it is accepted); the same holds of every table
  with entries at most 1. So each of the eight entry points returns 0 once
  \<^verbatim>\<open>get_weights\<close> has accepted the array; the entry points without an array always
  do.
\<close>

theorem empty_input_score:
  assumes "txt = [] \<or> query = []"
  shows "calc_rank w txt query m = 0
       \<and> ((\<forall>i<4. arrdata ! i \<le> 1) \<longrightarrow> calc_rank_cd ev arrdata txt query m = Some (Inr 0))
       \<and> (\<forall>w'. get_weights wopt = Inr w' \<longrightarrow> calc_rank_cd ev w' txt query m = Some (Inr 0))
       \<and> (\<forall>w'. get_weights (Some win) = Inr w' \<longrightarrow>
             ts_rank_wttf win txt query m = Inr 0
           \<and> ts_rankcd_wttf ev win txt query m = Some (Inr 0)
           \<and> ts_rank_wtt win txt query = Inr 0
           \<and> ts_rankcd_wtt ev win txt query = Some (Inr 0))
       \<and> ts_rank_ttf txt query m = Inr 0
       \<and> ts_rankcd_ttf ev txt query m = Some (Inr 0)
       \<and> ts_rank_tt txt query = Inr 0
       \<and> ts_rankcd_tt ev txt query = Some (Inr 0)"
proof -
  have std: "calc_rank w txt query m = 0" for w m
    using assms by (auto simp: calc_rank_def)
  have nodoc: "get_docrep txt query = None"
    using assms get_docrep_empty_vector get_docrep_empty_query by auto
  have cd: "calc_rank_cd ev arrdata txt query m = Some (Inr 0)"
    if "\<forall>i<4. arrdata ! i \<le> 1" for arrdata m
    using calc_rank_cd_no_docrep[OF nodoc that] .
  have gw: "calc_rank_cd ev w' txt query m = Some (Inr 0)"
    if "get_weights wopt = Inr w'" for w' wopt m
  proof -
    from get_weights_range[OF that] have "\<forall>i<4. w' ! i \<le> 1" by simp
    from cd[OF this] show ?thesis .
  qed
  have arr: "ts_rank_wttf win txt query m = Inr 0
           \<and> ts_rankcd_wttf ev win txt query m = Some (Inr 0)
           \<and> ts_rank_wtt win txt query = Inr 0
           \<and> ts_rankcd_wtt ev win txt query = Some (Inr 0)"
    if "get_weights (Some win) = Inr w'" for w'
    using that gw[OF that] std
    by (simp add: ts_rank_wttf_def ts_rankcd_wttf_def ts_rank_wtt_def ts_rankcd_wtt_def)
  have d: "get_weights None = Inr weights" by (simp add: get_weights_def)
  have dflt: "ts_rank_ttf txt query m = Inr 0 \<and> ts_rankcd_ttf ev txt query m = Some (Inr 0)
            \<and> ts_rank_tt txt query = Inr 0 \<and> ts_rankcd_tt ev txt query = Some (Inr 0)"
    using d gw[OF d] std
    by (simp add: ts_rank_ttf_def ts_rankcd_ttf_def ts_rank_tt_def ts_rankcd_tt_def)
  from std cd gw arr dflt show ?thesis by blast
qed

theorem empty_input_score_witness:
  "([] = ([]::TSVector) \<or> query_cat = [])
   \<and> calc_rank weights [] query_cat 0x21 = 0
   \<and> calc_rank_cd TS_execute weights [] query_cat 0x21 = Some (Inr 0)
   \<and> get_weights (Some (array_of [0.5, - 1, 0.4, 1])) = Inr [0.5, 0.2, 0.4, 1]
   \<and> calc_rank_cd TS_execute [0.5, 0.2, 0.4, 1] [] query_cat 0x21 = Some (Inr 0)
   \<and> ts_rankcd_wttf TS_execute (array_of [0.5, - 1, 0.4, 1]) [] query_cat 0x21 = Some (Inr 0)
   \<and> ts_rank_tt [] query_cat = Inr 0"
proof -
  have w: "\<forall>i<4. weights ! i \<le> 1" by (simp add: weights_def nth_Cons')
  have g: "get_weights (Some (array_of [0.5, - 1, 0.4, 1])) = Inr [0.5, 0.2, 0.4, 1]"
    by (simp add: get_weights_def array_of_def weights_def upt_rec)
  from empty_input_score[of "[]" query_cat weights "0x21" weights TS_execute
      "Some (array_of [0.5, - 1, 0.4, 1])" "array_of [0.5, - 1, 0.4, 1]"] w g
  show ?thesis by simp
qed

subsection \<open>Dispatch of the standard ranker\<close>

definition query_a_and_a :: TSQuery where
  "query_a_and_a = [QI_OPR OP_AND, QI_VAL \<lparr>operand = ''cat'', is_prefix = False\<rparr>,
                    QI_VAL \<lparr>operand = ''cat'', is_prefix = False\<rparr>]"

text \<open>
  Claim C4. On a non-empty vector and a non-empty query, \<^verbatim>\<open>calc_rank\<close> normalises
  the (clamped) result of \<^verbatim>\<open>calc_rank_and\<close> when the root is the AND operator and of
  \<^verbatim>\<open>calc_rank_or\<close> for every other root; and \<^verbatim>\<open>calc_rank_and\<close> is
  \<^verbatim>\<open>calc_rank_or\<close> when the query has fewer than two distinct operands.
\<close>

theorem calc_rank_dispatch:
  assumes "t \<noteq> []" and "q \<noteq> []"
  shows "(hd q = QI_OPR OP_AND \<longrightarrow>
            calc_rank w t q m =
              rank_normalise m t (if calc_rank_and w t q < 0 then 1 / 10 ^ 20 else calc_rank_and w t q))
       \<and> (hd q \<noteq> QI_OPR OP_AND \<longrightarrow>
            calc_rank w t q m =
              rank_normalise m t (if calc_rank_or w t q < 0 then 1 / 10 ^ 20 else calc_rank_or w t q))
       \<and> (length (sort_and_uniq_items q) < 2 \<longrightarrow> calc_rank_and w t q = calc_rank_or w t q)"
  using assms by (simp add: calc_rank_def calc_rank_and_def Let_def)

theorem calc_rank_dispatch_witness:
  "vec_S1 \<noteq> [] \<and> query_a_and_a \<noteq> [] \<and> hd query_a_and_a = QI_OPR OP_AND
   \<and> length (sort_and_uniq_items query_a_and_a) = 1
   \<and> calc_rank weights vec_S1 query_a_and_a 0 =
       rank_normalise 0 vec_S1 (if calc_rank_and weights vec_S1 query_a_and_a < 0 then 1 / 10 ^ 20
                                else calc_rank_and weights vec_S1 query_a_and_a)
   \<and> calc_rank_and weights vec_S1 query_a_and_a = calc_rank_or weights vec_S1 query_a_and_a"
proof -
  have a: "vec_S1 \<noteq> []" "query_a_and_a \<noteq> []" "hd query_a_and_a = QI_OPR OP_AND"
    by (simp_all add: vec_S1_def query_a_and_a_def)
  have b: "length (sort_and_uniq_items query_a_and_a) = 1" by code_simp
  from calc_rank_dispatch[OF a(1,2), of weights 0] a b show ?thesis by simp
qed


subsection \<open>A query that matches nothing\<close>

lemma takeWhile_none: "\<forall>x\<in>set xs. \<not> P x \<Longrightarrow> takeWhile P xs = []"
  by (cases xs) auto

lemma find_wordentry_no_match:
  assumes "\<forall>e\<in>set t. \<not> lexeme_matches item e"
  shows "find_wordentry t item = (None, 0)"
proof -
  obtain lo hi mid n where fl: "find_loop t item 0 (length t) (length t) = (lo, hi, mid, n)"
    by (metis prod_cases4)
  from find_loop_shape[OF fl] have shape:
    "(n = 1 \<and> mid = hi \<and> hi < length t \<and> lexeme (t ! hi) = operand item) \<or> (n = 0 \<and> hi \<le> lo)"
    by auto
  show ?thesis
  proof (cases "is_prefix item")
    case True
    let ?P = "\<lambda>e. prefix (operand item) (lexeme e)"
    have "\<not> ?P e" if "e \<in> set (drop hi t)" for e
      using assms True that by (auto simp: lexeme_matches_def dest: in_set_drop_nth)
    then have "takeWhile ?P (drop hi t) = []"
      by (intro takeWhile_none) blast
    moreover have "(if hi \<le> lo then hi else mid) = hi" using shape by auto
    ultimately show ?thesis using fl True
      by (simp add: find_wordentry_def Let_def prefix_run_eq)
  next
    case False
    have "n \<noteq> 1"
    proof
      assume "n = 1"
      with shape have "hi < length t" "lexeme (t ! hi) = operand item" by auto
      then have "t ! hi \<in> set t" "lexeme_matches item (t ! hi)"
        using False by (auto simp: lexeme_matches_def)
      with assms show False by blast
    qed
    with shape have "n = 0" by auto
    with fl False show ?thesis by (simp add: find_wordentry_def)
  qed
qed

lemma get_docrep_no_match:
  assumes "\<forall>v e. QI_VAL v \<in> set query \<longrightarrow> e \<in> set txt \<longrightarrow> \<not> lexeme_matches v e"
  shows "get_docrep txt query = None"
proof -
  have "docrep_operand txt query st i = st" if "i < length query" for st i
  proof (cases "query ! i")
    case (QI_VAL v)
    with that have "QI_VAL v \<in> set query" by (metis nth_mem)
    with assms have "\<forall>e\<in>set txt. \<not> lexeme_matches v e" by blast
    from find_wordentry_no_match[OF this] QI_VAL show ?thesis
      by (simp add: docrep_operand_def)
  next
    case (QI_OPR opr)
    then show ?thesis by (simp add: docrep_operand_def)
  qed
  then have "foldl (docrep_operand txt query) ([], replicate (length query) False) [0..<length query]
              = ([], replicate (length query) False)"
    by (intro foldl_unchanged) simp
  then show ?thesis by (simp add: get_docrep_def)
qed

definition query_dog :: TSQuery where
  "query_dog = [QI_VAL \<lparr>operand = ''dog'', is_prefix = True\<rparr>]"

text \<open>
  Claim C10. If no operand of the query matches a lexeme of the vector,
  \<^verbatim>\<open>get_docrep\<close> returns \<^verbatim>\<open>NULL\<close> and \<^verbatim>\<open>calc_rank_cd\<close> returns 0 before the
  cover loop and the normalisations, for every bitmask, every evaluator and every weight
  table it is given: the table \<^verbatim>\<open>get_weights\<close> returned to its caller (the defaults,
  or the caller's array once it is accepted), and every table with entries at most 1.
  The entry points return that 0.
\<close>

theorem no_match_score:
  assumes "\<forall>v e. QI_VAL v \<in> set query \<longrightarrow> e \<in> set txt \<longrightarrow> \<not> lexeme_matches v e"
  shows "get_docrep txt query = None
       \<and> ((\<forall>i<4. arrdata ! i \<le> 1) \<longrightarrow> calc_rank_cd ev arrdata txt query m = Some (Inr 0))
       \<and> (\<forall>w. get_weights wopt = Inr w \<longrightarrow> calc_rank_cd ev w txt query m = Some (Inr 0))
       \<and> (\<forall>w. get_weights (Some win) = Inr w \<longrightarrow>
             ts_rankcd_wttf ev win txt query m = Some (Inr 0)
           \<and> ts_rankcd_wtt ev win txt query = Some (Inr 0))
       \<and> ts_rankcd_ttf ev txt query m = Some (Inr 0)
       \<and> ts_rankcd_tt ev txt query = Some (Inr 0)"
proof -
  note nodoc = get_docrep_no_match[OF assms(1)]
  have cd: "calc_rank_cd ev arrdata txt query m = Some (Inr 0)"
    if "\<forall>i<4. arrdata ! i \<le> 1" for arrdata m
    using calc_rank_cd_no_docrep[OF nodoc that] .
  have gw: "calc_rank_cd ev w txt query m = Some (Inr 0)"
    if "get_weights wopt = Inr w" for w wopt m
  proof -
    from get_weights_range[OF that] have "\<forall>i<4. w ! i \<le> 1" by simp
    from cd[OF this] show ?thesis .
  qed
  have arr: "ts_rankcd_wttf ev win txt query m = Some (Inr 0)
           \<and> ts_rankcd_wtt ev win txt query = Some (Inr 0)"
    if "get_weights (Some win) = Inr w" for w
    using that gw[OF that] by (simp add: ts_rankcd_wttf_def ts_rankcd_wtt_def)
  have d: "get_weights None = Inr weights" by (simp add: get_weights_def)
  have dflt: "ts_rankcd_ttf ev txt query m = Some (Inr 0) \<and> ts_rankcd_tt ev txt query = Some (Inr 0)"
    using d gw[OF d] by (simp add: ts_rankcd_ttf_def ts_rankcd_tt_def)
  from nodoc cd gw arr dflt show ?thesis by blast
qed

theorem no_match_score_witness:
  "filter (lexeme_matches \<lparr>operand = ''dog'', is_prefix = True\<rparr>) vec_S1 = []
   \<and> vec_S1 \<noteq> [] \<and> query_dog \<noteq> []
   \<and> get_docrep vec_S1 query_dog = None
   \<and> calc_rank_cd TS_execute weights vec_S1 query_dog 0x3f = Some (Inr 0)
   \<and> get_weights (Some (array_of [1, 1, 1, 1])) = Inr [1, 1, 1, 1]
   \<and> calc_rank_cd TS_execute [1, 1, 1, 1] vec_S1 query_dog 0x3f = Some (Inr 0)
   \<and> ts_rankcd_wttf TS_execute (array_of [1, 1, 1, 1]) vec_S1 query_dog 0x3f = Some (Inr 0)
   \<and> ts_rankcd_tt TS_execute vec_S1 query_dog = Some (Inr 0)"
proof -
  have a: "\<forall>v e. QI_VAL v \<in> set query_dog \<longrightarrow> e \<in> set vec_S1 \<longrightarrow> \<not> lexeme_matches v e"
    by (simp add: query_dog_def vec_S1_def lexeme_matches_def)
  have w: "\<forall>i<4. weights ! i \<le> 1" by (simp add: weights_def nth_Cons')
  have f: "filter (lexeme_matches \<lparr>operand = ''dog'', is_prefix = True\<rparr>) vec_S1 = []"
    by (simp add: vec_S1_def lexeme_matches_def)
  have n: "vec_S1 \<noteq> []" "query_dog \<noteq> []" by (simp_all add: vec_S1_def query_dog_def)
  have g: "get_weights (Some (array_of [1, 1, 1, 1])) = Inr [1, 1, 1, 1]"
    by (simp add: get_weights_def array_of_def weights_def upt_rec)
  from no_match_score[OF a, of weights TS_execute "0x3f" "Some (array_of [1, 1, 1, 1])"
      "array_of [1, 1, 1, 1]"] w f n g
  show ?thesis by simp
qed

subsection \<open>Entries without positions in the OR ranker\<close>

definition vec_nopos :: TSVector where
  "vec_nopos = [\<lparr>lexeme = ''cat'', haspos = False, posvec = []\<rparr>]"

text \<open>
  Claim C8, as the code has it. For an entry without stored positions,
  \<^verbatim>\<open>calc_rank_or\<close> scores the dummy vector, whose only position word is 0: position 0
  in weight class 0, the class of the first entry of the weight table (default 0.1). The
  entry adds \<open>w[0] / 1.64493406685\<close>.
\<close>

theorem or_entry_no_positions:
  assumes "\<not> haspos entry"
  shows "or_entry w entry = w ! 0 / 1.64493406685
       \<and> pos_null = [0] \<and> WEP_GETPOS (hd pos_null) = 0 \<and> WEP_GETWEIGHT (hd pos_null) = 0"
proof -
  have g: "WEP_GETWEIGHT 0 = 0" "WEP_GETPOS 0 = 0"
    by (simp_all add: WEP_GETWEIGHT_def WEP_GETPOS_def)
  have "or_entry w entry = wpos w 0 / 1.64493406685"
    using assms by (simp add: or_entry_def pos_null_def)
  then show ?thesis using g by (simp add: wpos_def pos_null_def)
qed

theorem or_entry_no_positions_witness:
  "\<not> haspos (hd vec_nopos) \<and> or_entry weights (hd vec_nopos) = 0.1 / 1.64493406685"
  using or_entry_no_positions[of "hd vec_nopos" weights]
  by (simp add: vec_nopos_def weights_def)

lemma fw_nopos: "find_wordentry vec_nopos \<lparr>operand = ''cat'', is_prefix = False\<rparr> = (Some 0, 1)"
  by code_simp

text \<open>
  The claim as stated fails: the class of the dummy position is not 3, and a query for
  the only lexeme of a vector without positions scores \<open>0.1 / 1.64493406685\<close> under the
  default weights, not \<open>1.0 / 1.64493406685\<close>.
\<close>

theorem synthetic_class_not_highest:
  "\<not> (WEP_GETWEIGHT (hd pos_null) = 3)
   \<and> calc_rank_or weights vec_nopos query_cat = 0.1 / 1.64493406685
   \<and> \<not> (calc_rank_or weights vec_nopos query_cat = 1 / 1.64493406685)"
proof -
  have s: "sort_and_uniq_items query_cat = [\<lparr>operand = ''cat'', is_prefix = False\<rparr>]"
    by (simp add: sort_and_uniq_items_def query_cat_def)
  have e: "or_entry weights (hd vec_nopos) = 0.1 / 1.64493406685"
    by (simp add: or_entry_def vec_nopos_def pos_null_def wpos_def WEP_GETWEIGHT_def weights_def)
  have "calc_rank_or weights vec_nopos query_cat = 0.1 / 1.64493406685"
    using e[unfolded vec_nopos_def]
    by (simp add: calc_rank_or_def s or_operand_def fw_nopos[unfolded vec_nopos_def] vec_nopos_def)
  then show ?thesis
    by (simp add: pos_null_def WEP_GETWEIGHT_def)
qed

subsection \<open>Bounds of the OR ranker\<close>

lemma WEP_GETWEIGHT_lt4: "WEP_GETWEIGHT p < 4"
proof -
  have "unat p < 2 ^ 16" using unsigned_less[of p] by simp
  then have "unat p div 2 ^ 14 < 4" by simp
  then show ?thesis by (simp add: WEP_GETWEIGHT_def unat_drop_bit_eq drop_bit_eq_div unat_div)
qed

lemma wpos_weights_range: "0 \<le> wpos weights p \<and> wpos weights p \<le> 1"
proof -
  have "\<forall>c<4. 0 \<le> weights ! c \<and> weights ! c \<le> 1"
    by (simp add: weights_def nth_Cons' )
  with WEP_GETWEIGHT_lt4[of p] show ?thesis by (simp add: wpos_def)
qed


text \<open>
  The partial sums of the series of inverse squares stay below the constant
  \<open>1.64493406685\<close> by which \<^verbatim>\<open>calc_rank_or\<close> divides. The sum of the first 32
  terms is computed; the terms after them telescope under \<open>tail_bound\<close>, since
  \<open>1 / (x + 1/2)\<^sup>2 \<le> tail_bound x - tail_bound (x + 1)\<close>.
\<close>

definition tail_bound :: "real \<Rightarrow> real" where
  "tail_bound x = 1 / x - 1 / (12 * x ^ 3) + 7 / (240 * x ^ 5)"

lemma diff_inverse_powers:
  fixes x :: real
  assumes "0 < x"
  shows "1 / x - 1 / (x + 1) = 1 / (x * (x + 1))"
    and "1 / x ^ 3 - 1 / (x + 1) ^ 3 = (3 * (x * (x + 1)) + 1) / (x * (x + 1)) ^ 3"
    and "1 / x ^ 5 - 1 / (x + 1) ^ 5
           = (5 * (x * (x + 1))\<^sup>2 + 5 * (x * (x + 1)) + 1) / (x * (x + 1)) ^ 5"
proof -
  show "1 / x - 1 / (x + 1) = 1 / (x * (x + 1))"
    using assms by (simp add: field_simps)
  have nz: "x \<noteq> 0" "x + 1 \<noteq> 0" using assms by simp_all
  have "1 / x ^ 3 - 1 / (x + 1) ^ 3 = ((x + 1) ^ 3 - x ^ 3) / (x * (x + 1)) ^ 3"
    using nz by (simp add: power_mult_distrib diff_divide_distrib)
  also have "(x + 1) ^ 3 - x ^ 3 = 3 * (x * (x + 1)) + 1"
    by (simp add: power3_eq_cube algebra_simps)
  finally show "1 / x ^ 3 - 1 / (x + 1) ^ 3 = (3 * (x * (x + 1)) + 1) / (x * (x + 1)) ^ 3" .
  have "1 / x ^ 5 - 1 / (x + 1) ^ 5 = ((x + 1) ^ 5 - x ^ 5) / (x * (x + 1)) ^ 5"
    using nz by (simp add: power_mult_distrib diff_divide_distrib)
  also have "(x + 1) ^ 5 - x ^ 5 = 5 * (x * (x + 1))\<^sup>2 + 5 * (x * (x + 1)) + 1"
    by (simp add: eval_nat_numeral algebra_simps)
  finally show "1 / x ^ 5 - 1 / (x + 1) ^ 5
           = (5 * (x * (x + 1))\<^sup>2 + 5 * (x * (x + 1)) + 1) / (x * (x + 1)) ^ 5" .
qed

lemma tail_poly:
  fixes t :: real
  assumes "0 < t"
  shows "1 / (t + 1 / 4) \<le> 1 / t - (3 * t + 1) / (12 * t ^ 3) + 7 * (5 * t\<^sup>2 + 5 * t + 1) / (240 * t ^ 5)"
proof -
  have "1 / t - (3 * t + 1) / (12 * t ^ 3) + 7 * (5 * t\<^sup>2 + 5 * t + 1) / (240 * t ^ 5)
        = (240 * t ^ 4 - 60 * t ^ 3 + 15 * t\<^sup>2 + 35 * t + 7) / (240 * t ^ 5)"
    using assms by (simp add: field_simps eval_nat_numeral)
  moreover have "1 / (t + 1 / 4) \<le> (240 * t ^ 4 - 60 * t ^ 3 + 15 * t\<^sup>2 + 35 * t + 7) / (240 * t ^ 5)"
  proof -
    have "240 * t ^ 5 \<le> (240 * t ^ 4 - 60 * t ^ 3 + 15 * t\<^sup>2 + 35 * t + 7) * (t + 1 / 4)"
    proof -
      have "(240 * t ^ 4 - 60 * t ^ 3 + 15 * t\<^sup>2 + 35 * t + 7) * (t + 1 / 4)
            = 240 * t ^ 5 + (155 / 4 * t\<^sup>2 + 63 / 4 * t + 7 / 4)"
        by (simp add: eval_nat_numeral algebra_simps)
      moreover have "0 \<le> 155 / 4 * t\<^sup>2 + 63 / 4 * t + 7 / 4" using assms by simp
      ultimately show ?thesis by simp
    qed
    then show ?thesis using assms by (simp add: field_simps)
  qed
  ultimately show ?thesis by simp
qed

lemma tail_bound_step:
  assumes "0 < x"
  shows "1 / (x + 1 / 2)\<^sup>2 \<le> tail_bound x - tail_bound (x + 1)"
proof -
  define t where "t = x * (x + 1)"
  have t: "0 < t" using assms by (simp add: t_def)
  have m: "(x + 1 / 2)\<^sup>2 = t + 1 / 4"
    by (simp add: t_def power2_eq_square algebra_simps)
  have "tail_bound x - tail_bound (x + 1)
        = (1 / x - 1 / (x + 1)) - (1 / x ^ 3 - 1 / (x + 1) ^ 3) / 12
          + 7 * (1 / x ^ 5 - 1 / (x + 1) ^ 5) / 240"
    unfolding tail_bound_def by (simp add: diff_divide_distrib algebra_simps)
  also have "\<dots> = 1 / t - (3 * t + 1) / (12 * t ^ 3) + 7 * (5 * t\<^sup>2 + 5 * t + 1) / (240 * t ^ 5)"
    unfolding diff_inverse_powers[OF assms] t_def[symmetric] by simp
  finally show ?thesis using tail_poly[OF t] unfolding m by simp
qed

lemma tail_bound_pos:
  assumes "1 / 2 \<le> x"
  shows "0 \<le> tail_bound x"
proof -
  have "(1 / 2)\<^sup>2 \<le> x\<^sup>2" using assms by (intro power_mono) simp_all
  then have "1 \<le> 12 * x\<^sup>2" by (simp add: power2_eq_square)
  then have "x * 1 \<le> x * (12 * x\<^sup>2)" using assms by (intro mult_left_mono) simp_all
  then have "1 / (12 * x ^ 3) \<le> 1 / x"
    using assms by (simp add: field_simps power3_eq_cube power2_eq_square)
  moreover have "0 \<le> 7 / (240 * x ^ 5)" using assms by simp
  ultimately show ?thesis unfolding tail_bound_def by simp
qed

definition inverse_squares :: "nat \<Rightarrow> real" where
  "inverse_squares n = (\<Sum>j<n. 1 / (real (j + 1))\<^sup>2)"

lemma inverse_squares_Suc: "inverse_squares (Suc n) = inverse_squares n + 1 / (real (n + 1))\<^sup>2"
  by (simp add: inverse_squares_def)

lemma inverse_squares_mono: "m \<le> n \<Longrightarrow> inverse_squares m \<le> inverse_squares n"
  unfolding inverse_squares_def by (intro sum_mono2) auto

lemma inverse_squares_32: "inverse_squares 32 + tail_bound (32 + 1 / 2) \<le> 1.64493406685"
  unfolding inverse_squares_def tail_bound_def
  by (simp add: eval_nat_numeral)

lemma inverse_squares_tail:
  "32 \<le> n \<Longrightarrow> inverse_squares n + tail_bound (real n + 1 / 2) \<le> 1.64493406685"
proof (induction n rule: dec_induct)
  case base
  then show ?case using inverse_squares_32 by simp
next
  case (step n)
  have "0 < real n + 1 / 2" by simp
  from tail_bound_step[OF this]
  have "1 / (real (n + 1))\<^sup>2 \<le> tail_bound (real n + 1 / 2) - tail_bound (real (Suc n) + 1 / 2)"
    by (simp add: algebra_simps)
  with step.IH show ?case by (simp add: inverse_squares_Suc)
qed

lemma inverse_squares_bound: "inverse_squares n \<le> 1.64493406685"
proof -
  have "inverse_squares n \<le> inverse_squares (max n 32)"
    by (rule inverse_squares_mono) simp
  also have "\<dots> \<le> inverse_squares (max n 32) + tail_bound (real (max n 32) + 1 / 2)"
    using tail_bound_pos[of "real (max n 32) + 1 / 2"] by simp
  also have "\<dots> \<le> 1.64493406685"
    by (rule inverse_squares_tail) simp
  finally show ?thesis .
qed

lemma or_positions_inv:
  "\<forall>p\<in>set post. 0 \<le> wpos w p \<Longrightarrow> 0 \<le> resj \<Longrightarrow>
   (wjm = - 1 \<and> jm = 0) \<or> (0 \<le> wjm \<and> wjm / real ((jm + 1) * (jm + 1)) \<le> resj) \<Longrightarrow>
   or_positions w post j (resj, wjm, jm) = (r', w', j') \<Longrightarrow>
   0 \<le> r' \<and> ((w' = - 1 \<and> j' = 0) \<or> (0 \<le> w' \<and> w' / real ((j' + 1) * (j' + 1)) \<le> r'))"
proof (induction post arbitrary: j resj wjm jm)
  case Nil
  then show ?case by simp
next
  case (Cons p post)
  let ?v = "wpos w p"
  let ?r = "resj + ?v / real ((j + 1) * (j + 1))"
  from Cons.prems(1) have v: "0 \<le> ?v" by simp
  then have q: "0 \<le> ?v / real ((j + 1) * (j + 1))" by simp
  with Cons.prems(2) have r: "0 \<le> ?r" by simp
  from Cons.prems(1) have rest: "\<forall>p\<in>set post. 0 \<le> wpos w p" by simp
  show ?case
  proof (cases "?v > wjm")
    case True
    with Cons.prems(4) have eq: "or_positions w post (j + 1) (?r, ?v, j) = (r', w', j')" by simp
    have "?v / real ((j + 1) * (j + 1)) \<le> ?r" using Cons.prems(2) by simp
    with v have "(?v = - 1 \<and> j = 0) \<or> (0 \<le> ?v \<and> ?v / real ((j + 1) * (j + 1)) \<le> ?r)" by blast
    from Cons.IH[OF rest r this eq] show ?thesis .
  next
    case False
    with Cons.prems(4) have eq: "or_positions w post (j + 1) (?r, wjm, jm) = (r', w', j')" by simp
    from False v have "wjm \<noteq> - 1" by auto
    with Cons.prems(3) have "0 \<le> wjm" "wjm / real ((jm + 1) * (jm + 1)) \<le> resj" by auto
    with q have "(wjm = - 1 \<and> jm = 0) \<or> (0 \<le> wjm \<and> wjm / real ((jm + 1) * (jm + 1)) \<le> ?r)"
      by auto
    from Cons.IH[OF rest r this eq] show ?thesis .
  qed
qed

lemma or_entry_nonneg:
  assumes "\<forall>p. 0 \<le> wpos w p"
  shows "0 \<le> or_entry w entry"
proof -
  let ?post = "if haspos entry then posvec entry else pos_null"
  obtain r' w' j' where eq: "or_positions w ?post 0 (0, - 1, 0) = (r', w', j')"
    by (metis prod_cases3)
  have "0 \<le> r' \<and> ((w' = - 1 \<and> j' = 0) \<or> (0 \<le> w' \<and> w' / real ((j' + 1) * (j' + 1)) \<le> r'))"
    by (rule or_positions_inv[OF _ _ _ eq]) (use assms in auto)
  then have "0 \<le> w' + r' - w' / real ((j' + 1) * (j' + 1))" by auto
  then have "0 \<le> (w' + r' - w' / real ((j' + 1) * (j' + 1))) / 1.64493406685"
    by (rule divide_nonneg_pos) simp
  then show ?thesis unfolding or_entry_def eq prod.case .
qed

lemma or_positions_resj:
  "\<forall>p\<in>set post. wpos w p \<le> 1 \<Longrightarrow>
   fst (or_positions w post j (resj, wjm, jm))
     \<le> resj + (inverse_squares (j + length post) - inverse_squares j)"
proof (induction post arbitrary: j resj wjm jm)
  case Nil
  then show ?case by simp
next
  case (Cons p post)
  let ?v = "wpos w p"
  let ?r = "resj + ?v / real ((j + 1) * (j + 1))"
  from Cons.prems have v: "?v \<le> 1" and rest: "\<forall>p\<in>set post. wpos w p \<le> 1" by simp_all
  have "?v / real ((j + 1) * (j + 1)) \<le> 1 / real ((j + 1) * (j + 1))"
    using v by (intro divide_right_mono) simp_all
  also have "\<dots> = 1 / (real (j + 1))\<^sup>2"
    by (simp only: power2_eq_square of_nat_mult)
  also have "\<dots> = inverse_squares (j + 1) - inverse_squares j"
    using inverse_squares_Suc[of j] by simp
  finally have step: "?r \<le> resj + (inverse_squares (j + 1) - inverse_squares j)" by simp
  have "fst (or_positions w (p # post) j (resj, wjm, jm))
        = fst (or_positions w post (j + 1)
                 (?r, if ?v > wjm then ?v else wjm, if ?v > wjm then j else jm))"
    by simp
  also have "\<dots> \<le> ?r + (inverse_squares (j + 1 + length post) - inverse_squares (j + 1))"
    by (rule Cons.IH[OF rest])
  also have "\<dots> \<le> resj + (inverse_squares (j + length (p # post)) - inverse_squares j)"
    using step by simp
  finally show ?case .
qed

lemma or_positions_maximum_kept:
  "\<forall>p\<in>set post. wpos w p \<le> wjm \<Longrightarrow>
   snd (or_positions w post j (resj, wjm, jm)) = (wjm, jm)"
  by (induction post arbitrary: j resj) auto

lemma or_entry_first_heaviest:
  assumes range: "\<forall>p. 0 \<le> wpos w p \<and> wpos w p \<le> 1"
    and first: "haspos entry \<longrightarrow> (\<forall>p\<in>set (posvec entry). wpos w p \<le> wpos w (hd (posvec entry)))"
  shows "or_entry w entry \<le> 1"
proof -
  define post where "post = (if haspos entry then posvec entry else pos_null)"
  have hv: "\<forall>p\<in>set post. wpos w p \<le> wpos w (hd post)"
    using first by (auto simp: post_def pos_null_def)
  obtain r' w' j' where eq: "or_positions w post 0 (0, - 1, 0) = (r', w', j')"
    by (metis prod_cases3)
  have "fst (or_positions w post 0 (0, - 1, 0))
          \<le> 0 + (inverse_squares (0 + length post) - inverse_squares 0)"
    by (rule or_positions_resj) (use range in simp)
  then have "r' \<le> inverse_squares (length post)"
    by (simp add: eq inverse_squares_def)
  with inverse_squares_bound[of "length post"] have r: "r' \<le> 1.64493406685" by simp
  have "w' + r' - w' / real ((j' + 1) * (j' + 1)) \<le> 1.64493406685"
  proof (cases post)
    case Nil
    with eq r show ?thesis by simp
  next
    case (Cons p rest)
    from range have "0 \<le> wpos w p" by blast
    then have "\<not> wpos w p \<le> - 1" by linarith
    then have "or_positions w post 0 (0, - 1, 0) = or_positions w rest 1 (wpos w p, wpos w p, 0)"
      by (simp add: Cons)
    moreover have "snd (or_positions w rest 1 (wpos w p, wpos w p, 0)) = (wpos w p, 0)"
      by (rule or_positions_maximum_kept) (use hv Cons in simp)
    ultimately have "(w', j') = (wpos w p, 0)" using eq by (metis snd_conv)
    then have "w' = wpos w p" "j' = 0" by simp_all
    with r show ?thesis by simp
  qed
  then have "(w' + r' - w' / real ((j' + 1) * (j' + 1))) / 1.64493406685 \<le> 1"
    by simp
  then show ?thesis unfolding or_entry_def post_def[symmetric] eq prod.case .
qed

lemma find_wordentry_count_le1:
  assumes "\<not> is_prefix item"
  shows "snd (find_wordentry t item) \<le> 1"
proof -
  obtain lo hi mid n where fl: "find_loop t item 0 (length t) (length t) = (lo, hi, mid, n)"
    by (metis prod_cases4)
  from find_loop_shape[OF fl] have "n \<le> 1" by auto
  with fl assms show ?thesis by (simp add: find_wordentry_def)
qed

lemma foldl_add_nonneg:
  "\<forall>x\<in>set xs. 0 \<le> g x \<Longrightarrow> 0 \<le> (r::real) \<Longrightarrow> 0 \<le> foldl (\<lambda>res x. res + g x) r xs"
  by (induction xs arbitrary: r) auto

lemma or_operand_nonneg:
  assumes "0 \<le> res"
  shows "0 \<le> or_operand weights t res item"
proof -
  have "\<forall>p. 0 \<le> wpos weights p" using wpos_weights_range by blast
  then have "\<forall>x\<in>set xs. 0 \<le> or_entry weights x" for xs
    using or_entry_nonneg by blast
  then show ?thesis using assms
    by (auto simp: or_operand_def intro!: foldl_add_nonneg split: option.splits prod.splits)
qed

lemma find_wordentry_matches:
  assumes fw: "find_wordentry t item = (Some f, n)" and e: "e \<in> set (take n (drop f t))"
  shows "e \<in> set t \<and> lexeme_matches item e"
proof -
  obtain lo hi mid k where fl: "find_loop t item 0 (length t) (length t) = (lo, hi, mid, k)"
    by (metis prod_cases4)
  from find_loop_shape[OF fl] have shape:
    "(k = 1 \<and> mid = hi \<and> hi < length t \<and> lexeme (t ! hi) = operand item) \<or> (k = 0 \<and> hi \<le> lo)"
    by auto
  from e have int: "e \<in> set t" by (blast dest: in_set_takeD List.in_set_dropD)
  show ?thesis
  proof (cases "is_prefix item")
    case True
    let ?P = "\<lambda>e. prefix (operand item) (lexeme e)"
    have sm: "(if hi \<le> lo then hi else mid) = hi" using shape by auto
    from fw fl True sm have "f = hi" "n = length (takeWhile ?P (drop hi t))"
      by (auto simp: find_wordentry_def Let_def prefix_run_eq split: if_splits)
    then have "take n (drop f t) = takeWhile ?P (drop hi t)"
      using takeWhile_eq_take[of ?P "drop hi t"] by simp
    with e have "?P e" by (auto dest: set_takeWhileD)
    with True int show ?thesis by (simp add: lexeme_matches_def)
  next
    case False
    from fw fl False have fk: "f = hi" "n = k" "k > 0"
      by (auto simp: find_wordentry_def split: if_splits)
    with shape have s: "k = 1" "hi < length t" "lexeme (t ! hi) = operand item" by auto
    then have "take n (drop f t) = [t ! hi]"
      using fk by (simp add: take_Suc_conv_app_nth hd_drop_conv_nth take_Suc)
    with e s False int show ?thesis by (simp add: lexeme_matches_def)
  qed
qed

lemma or_operand_upper:
  assumes "is_prefix item \<longrightarrow> snd (find_wordentry t item) \<le> 1"
    and "\<forall>e\<in>set t. lexeme_matches item e \<longrightarrow> haspos e \<longrightarrow>
           (\<forall>p\<in>set (posvec e). wpos weights p \<le> wpos weights (hd (posvec e)))"
  shows "or_operand weights t res item \<le> res + 1"
proof -
  obtain first nitem where fw: "find_wordentry t item = (first, nitem)" by (cases "find_wordentry t item")
  with find_wordentry_count_le1[of item t] assms(1) have n: "nitem \<le> 1" by auto
  show ?thesis
  proof (cases first)
    case None
    with fw show ?thesis by (simp add: or_operand_def)
  next
    case (Some f)
    let ?run = "take nitem (drop f t)"
    have unf: "or_operand weights t res item = foldl (\<lambda>res entry. res + or_entry weights entry) res ?run"
      using fw Some by (simp add: or_operand_def)
    have "length ?run \<le> 1" using n by simp
    then consider "?run = []" | e where "?run = [e]" by (cases ?run) auto
    then show ?thesis
    proof cases
      case 1
      show ?thesis unfolding unf 1 by simp
    next
      case 2
      then have "e \<in> set ?run" by simp
      with fw Some have "e \<in> set t \<and> lexeme_matches item e"
        by (intro find_wordentry_matches) simp_all
      with assms(2) have "haspos e \<longrightarrow> (\<forall>p\<in>set (posvec e). wpos weights p \<le> wpos weights (hd (posvec e)))"
        by blast
      with wpos_weights_range have "or_entry weights e \<le> 1"
        by (intro or_entry_first_heaviest) blast+
      then show ?thesis unfolding unf 2 by simp
    qed
  qed
qed

lemma foldl_nonneg:
  "(\<And>r x. 0 \<le> r \<Longrightarrow> 0 \<le> f r x) \<Longrightarrow> 0 \<le> (r::real) \<Longrightarrow> 0 \<le> foldl f r xs"
  by (induction xs arbitrary: r) auto

lemma foldl_upper:
  "(\<And>r x. x \<in> set xs \<Longrightarrow> f r x \<le> r + c) \<Longrightarrow> foldl f (r::real) xs \<le> r + real (length xs) * c"
proof (induction xs arbitrary: r)
  case Nil
  then show ?case by simp
next
  case (Cons x xs)
  have "foldl f (f r x) xs \<le> f r x + real (length xs) * c"
    using Cons.IH Cons.prems by simp
  also have "\<dots> \<le> r + c + real (length xs) * c" using Cons.prems[of x r] by simp
  finally show ?case by (simp add: algebra_simps)
qed

lemma set_collect_operands: "set (collect_operands q) = {v. QI_VAL v \<in> set q}"
  by (induction q rule: collect_operands.induct) auto

lemma set_sort_insert: "set (sort_insert cmp x ys) = insert x (set ys)"
  by (induction ys) auto

lemma set_qsort_arg: "set (qsort_arg cmp xs) = set xs"
  by (induction xs) (auto simp: qsort_arg_def set_sort_insert)

lemma set_remove_duplicates: "set (remove_duplicates xs) \<subseteq> set xs"
  by (induction xs rule: remove_duplicates.induct) auto

lemma set_sort_and_uniq_items: "v \<in> set (sort_and_uniq_items q) \<Longrightarrow> QI_VAL v \<in> set q"
  using set_remove_duplicates[of "qsort_arg compare_query_operand (collect_operands q)"]
  by (auto simp: sort_and_uniq_items_def Let_def set_qsort_arg set_collect_operands split: if_splits)

definition vec_cat_catch :: TSVector where
  "vec_cat_catch = [\<lparr>lexeme = ''cat'', haspos = True, posvec = [0xC001]\<rparr>,
                    \<lparr>lexeme = ''catch'', haspos = True, posvec = [0xC001]\<rparr>]"

definition vec_seven :: TSVector where
  "vec_seven = [\<lparr>lexeme = ''cat'', haspos = True,
                  posvec = [0x8001, 0xC002, 0xC003, 0xC004, 0xC005, 0xC006, 0xC007]\<rparr>]"

lemma calc_rank_or_cat_catch:
  "calc_rank_or weights vec_cat_catch query_cat_prefix = 2 / 1.64493406685"
proof -
  have s: "sort_and_uniq_items query_cat_prefix = [\<lparr>operand = ''cat'', is_prefix = True\<rparr>]"
    by (simp add: sort_and_uniq_items_def query_cat_prefix_def)
  have f: "find_wordentry vec_cat_catch \<lparr>operand = ''cat'', is_prefix = True\<rparr> = (Some 0, 2)"
    by code_simp
  have e: "or_entry weights \<lparr>lexeme = x, haspos = True, posvec = [0xC001]\<rparr> = 1 / 1.64493406685" for x
    by (simp add: or_entry_def wpos_def WEP_GETWEIGHT_def weights_def)
  show ?thesis
    by (simp add: calc_rank_or_def s or_operand_def f) (simp add: vec_cat_catch_def e)
qed

lemma calc_rank_or_seven:
  "calc_rank_or weights vec_seven query_cat = 14657050000000 / 14508318469617"
proof -
  have s: "sort_and_uniq_items query_cat = [\<lparr>operand = ''cat'', is_prefix = False\<rparr>]"
    by (simp add: sort_and_uniq_items_def query_cat_def)
  have f: "find_wordentry vec_seven \<lparr>operand = ''cat'', is_prefix = False\<rparr> = (Some 0, 1)"
    by code_simp
  have w: "wpos weights 0x8001 = 0.4" "wpos weights 0xC002 = 1" "wpos weights 0xC003 = 1"
    "wpos weights 0xC004 = 1" "wpos weights 0xC005 = 1" "wpos weights 0xC006 = 1" "wpos weights 0xC007 = 1"
    by (simp_all add: wpos_def WEP_GETWEIGHT_def weights_def)
  have e: "or_entry weights (hd vec_seven) = 14657050000000 / 14508318469617"
    by (simp add: or_entry_def vec_seven_def w)
  show ?thesis
    by (simp add: calc_rank_or_def s or_operand_def f) (simp add: vec_seven_def e[unfolded vec_seven_def, simplified])
qed

definition vec_S2 :: TSVector where
  "vec_S2 = [\<lparr>lexeme = ''cat'', haspos = True, posvec = [0xC001, 0xC002, 0xC003]\<rparr>]"

lemma calc_rank_or_S2:
  "calc_rank_or weights vec_S2 query_cat = (1 + 1 / 4 + 1 / 9) / 1.64493406685"
proof -
  have s: "sort_and_uniq_items query_cat = [\<lparr>operand = ''cat'', is_prefix = False\<rparr>]"
    by (simp add: sort_and_uniq_items_def query_cat_def)
  have f: "find_wordentry vec_S2 \<lparr>operand = ''cat'', is_prefix = False\<rparr> = (Some 0, 1)"
    by code_simp
  have w: "wpos weights 0xC001 = 1" "wpos weights 0xC002 = 1" "wpos weights 0xC003 = 1"
    by (simp_all add: wpos_def WEP_GETWEIGHT_def weights_def)
  have e: "or_entry weights (hd vec_S2) = (1 + 1 / 4 + 1 / 9) / 1.64493406685"
    by (simp add: or_entry_def vec_S2_def w)
  show ?thesis
    by (simp add: calc_rank_or_def s or_operand_def f) (simp add: vec_S2_def e[unfolded vec_S2_def, simplified])
qed

text \<open>
  Claim C3, as the code has it. With the default weights \<^verbatim>\<open>calc_rank_or\<close> is never
  negative. It is at most 1 when every operand with the prefix flag matches at most one
  entry (an operand without the flag always does) and, in every entry that an operand
  matches, no position weighs more than the first one, so that \<^verbatim>\<open>jm\<close> stays 0 and
  the entry adds \<open>resj / 1.64493406685\<close>, a partial sum of weights over squares, which
  the constant bounds. Entries with one position, entries without positions and entries
  whose positions have one class are of this kind.
\<close>

theorem calc_rank_or_bounds:
  "0 \<le> calc_rank_or weights t q
   \<and> ((\<forall>v. QI_VAL v \<in> set q \<longrightarrow>
           (is_prefix v \<longrightarrow> snd (find_wordentry t v) \<le> 1)
         \<and> (\<forall>e\<in>set t. lexeme_matches v e \<longrightarrow> haspos e \<longrightarrow>
               (\<forall>p\<in>set (posvec e). wpos weights p \<le> wpos weights (hd (posvec e)))))
        \<longrightarrow> calc_rank_or weights t q \<le> 1)"
proof -
  let ?items = "sort_and_uniq_items q"
  let ?res = "foldl (or_operand weights t) 0 ?items"
  have res0: "0 \<le> ?res" by (rule foldl_nonneg) (simp_all add: or_operand_nonneg)
  then have lower: "0 \<le> calc_rank_or weights t q"
    by (simp add: calc_rank_or_def Let_def)
  have upper: "calc_rank_or weights t q \<le> 1"
    if h: "\<forall>v. QI_VAL v \<in> set q \<longrightarrow>
             (is_prefix v \<longrightarrow> snd (find_wordentry t v) \<le> 1)
           \<and> (\<forall>e\<in>set t. lexeme_matches v e \<longrightarrow> haspos e \<longrightarrow>
                 (\<forall>p\<in>set (posvec e). wpos weights p \<le> wpos weights (hd (posvec e))))"
  proof -
    have "?res \<le> 0 + real (length ?items) * 1"
    proof (rule foldl_upper)
      fix r x assume "x \<in> set ?items"
      then have "QI_VAL x \<in> set q" by (rule set_sort_and_uniq_items)
      with h have "is_prefix x \<longrightarrow> snd (find_wordentry t x) \<le> 1"
        and "\<forall>e\<in>set t. lexeme_matches x e \<longrightarrow> haspos e \<longrightarrow>
               (\<forall>p\<in>set (posvec e). wpos weights p \<le> wpos weights (hd (posvec e)))"
        by blast+
      then show "or_operand weights t r x \<le> r + 1" by (rule or_operand_upper)
    qed
    then have bound: "?res \<le> real (length ?items)" by simp
    show ?thesis
    proof (cases "length ?items > 0")
      case True
      then have "?res / real (length ?items) \<le> 1"
        using bound by (simp add: field_simps)
      then show ?thesis using True by (simp add: calc_rank_or_def Let_def)
    next
      case False
      then have "?res = 0" by simp
      with False show ?thesis by (simp add: calc_rank_or_def Let_def)
    qed
  qed
  from lower upper show ?thesis by blast
qed

theorem calc_rank_or_bounds_witness:
  "filter (\<lambda>item. case item of QI_VAL v \<Rightarrow> is_prefix v | QI_OPR opr \<Rightarrow> False) query_cat = []
   \<and> map (\<lambda>e. map (wpos weights) (posvec e)) vec_S2 = [[1, 1, 1]]
   \<and> calc_rank_or weights vec_S2 query_cat = (1 + 1 / 4 + 1 / 9) / 1.64493406685
   \<and> 0 \<le> calc_rank_or weights vec_S2 query_cat
   \<and> calc_rank_or weights vec_S2 query_cat \<le> 1"
proof -
  note v = calc_rank_or_S2
  have w: "wpos weights 0xC001 = 1" "wpos weights 0xC002 = 1" "wpos weights 0xC003 = 1"
    by (simp_all add: wpos_def WEP_GETWEIGHT_def weights_def)
  have a: "\<forall>v. QI_VAL v \<in> set query_cat \<longrightarrow>
             (is_prefix v \<longrightarrow> snd (find_wordentry vec_S2 v) \<le> 1)
           \<and> (\<forall>e\<in>set vec_S2. lexeme_matches v e \<longrightarrow> haspos e \<longrightarrow>
                 (\<forall>p\<in>set (posvec e). wpos weights p \<le> wpos weights (hd (posvec e))))"
    by (simp add: query_cat_def vec_S2_def w)
  have f: "filter (\<lambda>item. case item of QI_VAL v \<Rightarrow> is_prefix v | QI_OPR opr \<Rightarrow> False) query_cat = []"
    by (simp add: query_cat_def)
  have m: "map (\<lambda>e. map (wpos weights) (posvec e)) vec_S2 = [[1, 1, 1]]"
    by (simp add: vec_S2_def w)
  from calc_rank_or_bounds[of vec_S2 query_cat] a f m v show ?thesis by blast
qed

text \<open>
  The claim as stated fails, and each of the two conditions is needed. A prefix operand
  adds up the contributions of every entry of its run: two entries with one position of
  class 3 each give \<open>2 / 1.64493406685 > 1\<close>. And one entry whose heaviest position is
  not the first can exceed 1 alone, under an operand without the prefix flag: seven
  positions of the classes 2, 3, 3, 3, 3, 3, 3.
\<close>

theorem calc_rank_or_above_one:
  "\<not> (0 \<le> calc_rank_or weights vec_cat_catch query_cat_prefix
       \<and> calc_rank_or weights vec_cat_catch query_cat_prefix \<le> 1)
   \<and> \<not> (calc_rank_or weights vec_seven query_cat \<le> 1)
   \<and> snd (find_wordentry vec_cat_catch \<lparr>operand = ''cat'', is_prefix = True\<rparr>) = 2
   \<and> map (\<lambda>e. map (wpos weights) (posvec e)) vec_cat_catch = [[1], [1]]
   \<and> map (\<lambda>e. map (wpos weights) (posvec e)) vec_seven = [[0.4, 1, 1, 1, 1, 1, 1]]"
proof -
  have f: "find_wordentry vec_cat_catch \<lparr>operand = ''cat'', is_prefix = True\<rparr> = (Some 0, 2)"
    by code_simp
  have w: "wpos weights 0x8001 = 0.4" "wpos weights 0xC001 = 1" "wpos weights 0xC002 = 1"
    "wpos weights 0xC003 = 1" "wpos weights 0xC004 = 1" "wpos weights 0xC005 = 1"
    "wpos weights 0xC006 = 1" "wpos weights 0xC007 = 1"
    by (simp_all add: wpos_def WEP_GETWEIGHT_def weights_def)
  have a: "\<not> (0 \<le> calc_rank_or weights vec_cat_catch query_cat_prefix
       \<and> calc_rank_or weights vec_cat_catch query_cat_prefix \<le> 1)"
    "\<not> (calc_rank_or weights vec_seven query_cat \<le> 1)"
    by (simp_all add: calc_rank_or_cat_catch calc_rank_or_seven)
  have b: "snd (find_wordentry vec_cat_catch \<lparr>operand = ''cat'', is_prefix = True\<rparr>) = 2"
    by (simp add: f)
  have c: "map (\<lambda>e. map (wpos weights) (posvec e)) vec_cat_catch = [[1], [1]]"
    "map (\<lambda>e. map (wpos weights) (posvec e)) vec_seven = [[0.4, 1, 1, 1, 1, 1, 1]]"
    by (simp_all add: vec_cat_catch_def vec_seven_def w)
  from a b c show ?thesis by blast
qed

subsection \<open>Pairs of positions in the AND ranker\<close>

text \<open>
  The rule for one pair of positions in the spec's words, with the running score as an
  option: \<open>None\<close> as long as no pair has been scored. A pair is skipped iff its distance
  is 0 and neither side is the dummy vector; a distance of 0 is replaced by
  \<open>MAX_POS\<close>; the pair's weight is the square root of the two class weights times
  \<open>word_distance\<close> of the distance; the first scored pair sets the score, a later one
  combines with it as \<open>1 - (1 - res) (1 - curw)\<close>.
\<close>

definition and_pair_spec ::
  "real list \<Rightarrow> bool \<Rightarrow> real option \<Rightarrow> WordEntryPos \<Rightarrow> WordEntryPos \<Rightarrow> real option" where
  "and_pair_spec w synthetic acc a b =
     (let dist = \<bar>int (WEP_GETPOS a) - int (WEP_GETPOS b)\<bar> in
      if dist = 0 \<and> \<not> synthetic then acc
      else
        (let d = (if dist = 0 then MAXENTRYPOS else dist);
             wd = (if d > 100 then 1 / 10 ^ 30
                   else 1 / (1.005 + 0.05 * exp (real_of_int d / 1.5 - 2)));
             curw = sqrt (w ! WEP_GETWEIGHT a * w ! WEP_GETWEIGHT b * wd)
         in (case acc of
               None \<Rightarrow> Some curw
             | Some res \<Rightarrow> Some (1 - (1 - res) * (1 - curw)))))"

lemma word_distance_range: "0 < word_distance d \<and> word_distance d \<le> 1"
proof (cases "d > 100")
  case True
  then show ?thesis by (simp add: word_distance_def)
next
  case False
  define e where "e = exp (real_of_int d / 1.5 - 2)"
  have "0 < e" by (simp add: e_def)
  then have "1 \<le> 1.005 + 0.05 * e" by simp
  then have "0 < 1 / (1.005 + 0.05 * e) \<and> 1 / (1.005 + 0.05 * e) \<le> 1"
    by (simp add: divide_le_eq_1)
  moreover have "word_distance d = 1 / (1.005 + 0.05 * e)"
    using False unfolding word_distance_def e_def by (simp only: if_False)
  ultimately show ?thesis by simp
qed

lemma curw_range:
  assumes "0 \<le> x" "x \<le> 1" "0 \<le> y" "y \<le> 1"
  shows "0 \<le> sqrt (x * y * word_distance d) \<and> sqrt (x * y * word_distance d) \<le> 1"
proof -
  from word_distance_range[of d] have wd: "0 \<le> word_distance d" "word_distance d \<le> 1" by auto
  have xy: "0 \<le> x * y" "x * y \<le> 1" using assms by (simp_all add: mult_le_one)
  then have "0 \<le> x * y * word_distance d" "x * y * word_distance d \<le> 1"
    using wd by (simp_all add: mult_le_one)
  then show ?thesis by simp
qed

definition and_rel :: "real \<Rightarrow> real option \<Rightarrow> bool" where
  "and_rel res acc = (case acc of None \<Rightarrow> res = - 1 | Some r \<Rightarrow> res = r \<and> 0 \<le> r \<and> r \<le> 1)"

lemma and_pair_alt:
  "and_pair w s res a b =
     (if \<bar>int (WEP_GETPOS a) - int (WEP_GETPOS b)\<bar> = 0 \<and> \<not> s then res
      else if res < 0
      then sqrt (wpos w a * wpos w b *
                 word_distance (if \<bar>int (WEP_GETPOS a) - int (WEP_GETPOS b)\<bar> = 0 then MAXENTRYPOS
                                else \<bar>int (WEP_GETPOS a) - int (WEP_GETPOS b)\<bar>))
      else 1 - (1 - res) *
             (1 - sqrt (wpos w a * wpos w b *
                 word_distance (if \<bar>int (WEP_GETPOS a) - int (WEP_GETPOS b)\<bar> = 0 then MAXENTRYPOS
                                else \<bar>int (WEP_GETPOS a) - int (WEP_GETPOS b)\<bar>))))"
  unfolding and_pair_def Let_def by (cases s) auto

lemma and_pair_spec_alt:
  "and_pair_spec w s acc a b =
     (if \<bar>int (WEP_GETPOS a) - int (WEP_GETPOS b)\<bar> = 0 \<and> \<not> s then acc
      else (case acc of
              None \<Rightarrow>
                Some (sqrt (wpos w a * wpos w b *
                 word_distance (if \<bar>int (WEP_GETPOS a) - int (WEP_GETPOS b)\<bar> = 0 then MAXENTRYPOS
                                else \<bar>int (WEP_GETPOS a) - int (WEP_GETPOS b)\<bar>)))
            | Some res \<Rightarrow>
                Some (1 - (1 - res) *
                  (1 - sqrt (wpos w a * wpos w b *
                 word_distance (if \<bar>int (WEP_GETPOS a) - int (WEP_GETPOS b)\<bar> = 0 then MAXENTRYPOS
                                else \<bar>int (WEP_GETPOS a) - int (WEP_GETPOS b)\<bar>))))))"
  unfolding and_pair_spec_def Let_def wpos_def word_distance_def ..

lemma and_pair_step:
  assumes w: "\<forall>c<4. 0 \<le> w ! c \<and> w ! c \<le> 1" and rel: "and_rel res acc"
  shows "and_rel (and_pair w s res a b) (and_pair_spec w s acc a b)"
proof -
  define dist where "dist = \<bar>int (WEP_GETPOS a) - int (WEP_GETPOS b)\<bar>"
  define curw where "curw = sqrt (wpos w a * wpos w b *
                        word_distance (if dist = 0 then MAXENTRYPOS else dist))"
  have wa: "0 \<le> wpos w a" "wpos w a \<le> 1" "0 \<le> wpos w b" "wpos w b \<le> 1"
    using w WEP_GETWEIGHT_lt4 by (simp_all add: wpos_def)
  from curw_range[OF wa] have c: "0 \<le> curw" "curw \<le> 1" by (auto simp: curw_def)
  have code: "and_pair w s res a b =
      (if dist = 0 \<and> \<not> s then res else if res < 0 then curw else 1 - (1 - res) * (1 - curw))"
    unfolding dist_def curw_def by (rule and_pair_alt)
  have spec: "and_pair_spec w s acc a b =
      (if dist = 0 \<and> \<not> s then acc
       else (case acc of None \<Rightarrow> Some curw | Some res \<Rightarrow> Some (1 - (1 - res) * (1 - curw))))"
    unfolding dist_def curw_def by (rule and_pair_spec_alt)
  show ?thesis
  proof (cases "dist = 0 \<and> \<not> s")
    case True
    then show ?thesis using rel unfolding code spec by simp
  next
    case False
    show ?thesis
    proof (cases acc)
      case None
      with rel have "res = - 1" by (simp add: and_rel_def)
      then show ?thesis using False None c unfolding code spec by (auto simp: and_rel_def)
    next
      case (Some r)
      with rel have r: "res = r" "0 \<le> r" "r \<le> 1" by (simp_all add: and_rel_def)
      have "0 \<le> (1 - r) * (1 - curw)" "(1 - r) * (1 - curw) \<le> 1"
        using r c by (simp_all add: mult_le_one)
      then show ?thesis using False Some r unfolding code spec by (auto simp: and_rel_def)
    qed
  qed
qed

lemma and_pairs_fold:
  assumes w: "\<forall>c<4. 0 \<le> w ! c \<and> w ! c \<le> 1"
  shows "and_rel res acc \<Longrightarrow>
         and_rel (foldl (\<lambda>res (s, a, b). and_pair w s res a b) res ps)
                 (foldl (\<lambda>acc (s, a, b). and_pair_spec w s acc a b) acc ps)"
proof (induction ps arbitrary: res acc)
  case Nil
  then show ?case by simp
next
  case (Cons p ps)
  obtain s a b where p: "p = (s, a, b)" by (cases p)
  from and_pair_step[OF w Cons.prems] have "and_rel (and_pair w s res a b) (and_pair_spec w s acc a b)" .
  from Cons.IH[OF this] show ?case by (simp add: p)
qed

text \<open>
  The AND ranker in the spec's words, as the list of the pairs of positions it scores.
  The entries an operand matches are the run that the lookup returns. An entry gives its
  positions, or the dummy vector with the flag that it is synthetic. When operand \<open>i\<close>
  is processed, \<open>pos[k]\<close> of an earlier operand \<open>k\<close> is populated iff that operand
  matched, and holds the positions of the last entry it matched. Every entry of operand
  \<open>i\<close> is paired with every populated earlier operand, over the Cartesian product of
  the two position lists, the entry's position first.
\<close>

definition matching_entries :: "TSVector \<Rightarrow> QueryOperand \<Rightarrow> WordEntry list" where
  "matching_entries t item =
     (case find_wordentry t item of
        (None, nitem) \<Rightarrow> []
      | (Some firstentry, nitem) \<Rightarrow> take nitem (drop firstentry t))"

definition entry_positions :: "WordEntry \<Rightarrow> bool \<times> WordEntryPos list" where
  "entry_positions entry = (if haspos entry then (False, posvec entry) else (True, pos_null_and))"

definition populated :: "TSVector \<Rightarrow> QueryOperand list \<Rightarrow> nat \<Rightarrow> (bool \<times> WordEntryPos list) option" where
  "populated t item k =
     (if matching_entries t (item ! k) = [] then None
      else Some (entry_positions (last (matching_entries t (item ! k)))))"

definition scored_against ::
  "bool \<times> WordEntryPos list \<Rightarrow> (bool \<times> WordEntryPos list) option
     \<Rightarrow> (bool \<times> WordEntryPos \<times> WordEntryPos) list" where
  "scored_against posi posk =
     (case posk of
        None \<Rightarrow> []
      | Some ct \<Rightarrow>
          map (\<lambda>(postl, ctp). (fst posi \<or> fst ct, postl, ctp)) (List.product (snd posi) (snd ct)))"

definition operand_pairs ::
  "TSVector \<Rightarrow> QueryOperand list \<Rightarrow> nat \<Rightarrow> (bool \<times> WordEntryPos \<times> WordEntryPos) list" where
  "operand_pairs t item i =
     concat (map (\<lambda>entry.
               concat (map (\<lambda>k. scored_against (entry_positions entry) (populated t item k)) [0..<i]))
             (matching_entries t (item ! i)))"

definition scored_pairs ::
  "TSVector \<Rightarrow> QueryOperand list \<Rightarrow> (bool \<times> WordEntryPos \<times> WordEntryPos) list" where
  "scored_pairs t item = concat (map (operand_pairs t item) [0..<length item])"

definition rank_and_spec :: "real list \<Rightarrow> TSVector \<Rightarrow> TSQuery \<Rightarrow> real" where
  "rank_and_spec w t q =
     (let item = sort_and_uniq_items q in
      if length item < 2 then calc_rank_or w t q
      else (case foldl (\<lambda>acc (s, a, b). and_pair_spec w s acc a b) None (scored_pairs t item) of
              None \<Rightarrow> - 1
            | Some r \<Rightarrow> r))"

lemma and_against_pairs:
  "and_against w posi res posk =
     foldl (\<lambda>res (s, a, b). and_pair w s res a b) res (scored_against posi posk)"
proof (cases posk)
  case None
  then show ?thesis by (simp add: and_against_def scored_against_def)
next
  case (Some ct)
  have "foldl (\<lambda>res (s, a, b). and_pair w s res a b) res
          (map (\<lambda>(postl, ctp). (fst posi \<or> fst ct, postl, ctp)) xs)
        = foldl (\<lambda>res (postl, ctp). and_pair w (fst posi \<or> fst ct) res postl ctp) res xs" for xs
    by (induction xs arbitrary: res) auto
  with Some show ?thesis by (simp add: and_against_def scored_against_def)
qed

lemma and_against_fold:
  "foldl (and_against w posi) res posks =
     foldl (\<lambda>res (s, a, b). and_pair w s res a b) res (concat (map (scored_against posi) posks))"
  by (induction posks arbitrary: res) (simp_all add: and_against_pairs)

lemma and_entry_fold:
  "i < length pos \<Longrightarrow>
   foldl (and_entry w i) (pos, res) es =
     (if es = [] then pos else pos[i := Some (entry_positions (last es))],
      foldl (\<lambda>res (s, a, b). and_pair w s res a b) res
        (concat (map (\<lambda>entry. concat (map (scored_against (entry_positions entry)) (take i pos))) es)))"
proof (induction es arbitrary: pos res)
  case Nil
  then show ?case by simp
next
  case (Cons e es)
  let ?pos = "pos[i := Some (entry_positions e)]"
  let ?res = "foldl (and_against w (entry_positions e)) res (take i pos)"
  have step: "and_entry w i (pos, res) e = (?pos, ?res)"
    by (simp add: and_entry_def entry_positions_def Let_def)
  have len: "i < length ?pos" using Cons.prems by simp
  have tk: "take i ?pos = take i pos" by simp
  show ?case
    unfolding foldl_Cons step Cons.IH[OF len] tk
    by (simp add: and_against_fold)
qed

lemma and_operand_fold:
  "and_operand w t item st i = foldl (and_entry w i) st (matching_entries t (item ! i))"
  by (simp add: and_operand_def matching_entries_def split: prod.splits option.splits)

lemma and_operands_fold:
  assumes "n \<le> len"
  shows "foldl (and_operand w t item) (replicate len None, - 1) [0..<n] =
           (map (\<lambda>k. if k < n then populated t item k else None) [0..<len],
            foldl (\<lambda>res (s, a, b). and_pair w s res a b) (- 1)
              (concat (map (operand_pairs t item) [0..<n])))"
  using assms
proof (induction n)
  case 0
  then show ?case by (simp add: map_replicate_const)
next
  case (Suc n)
  let ?P = "map (\<lambda>k. if k < n then populated t item k else None) [0..<len]"
  let ?es = "matching_entries t (item ! n)"
  from Suc.prems have n: "n < len" "n \<le> len" by simp_all
  have lenP: "n < length ?P" using n by simp
  have "take n ?P = map (\<lambda>k. if k < n then populated t item k else None) (take n [0..<len])"
    by (simp add: take_map)
  also have "take n [0..<len] = [0..<n]" using n by simp
  also have "map (\<lambda>k. if k < n then populated t item k else None) [0..<n] = map (populated t item) [0..<n]"
    by simp
  finally have tk: "take n ?P = map (populated t item) [0..<n]" .
  have pos: "(if ?es = [] then ?P else ?P[n := Some (entry_positions (last ?es))])
             = map (\<lambda>k. if k < Suc n then populated t item k else None) [0..<len]"
    using n by (auto simp: populated_def less_Suc_eq intro!: nth_equalityI simp: nth_list_update)
  have "foldl (and_operand w t item) (replicate len None, - 1) [0..<Suc n]
        = and_operand w t item (foldl (and_operand w t item) (replicate len None, - 1) [0..<n]) n"
    by simp
  also have "\<dots> = and_operand w t item
            (?P, foldl (\<lambda>res (s, a, b). and_pair w s res a b) (- 1)
                   (concat (map (operand_pairs t item) [0..<n]))) n"
    by (simp only: Suc.IH[OF n(2)])
  also have "\<dots> = foldl (and_entry w n)
            (?P, foldl (\<lambda>res (s, a, b). and_pair w s res a b) (- 1)
                   (concat (map (operand_pairs t item) [0..<n]))) ?es"
    by (rule and_operand_fold)
  also have "\<dots> = (map (\<lambda>k. if k < Suc n then populated t item k else None) [0..<len],
            foldl (\<lambda>res (s, a, b). and_pair w s res a b) (- 1)
              (concat (map (operand_pairs t item) [0..<Suc n])))"
    unfolding and_entry_fold[OF lenP] tk pos
    by (simp add: operand_pairs_def comp_def)
  finally show ?case .
qed

lemma length_collect_operands: "length (collect_operands q) \<le> length q"
  by (induction q rule: collect_operands.induct) auto

lemma length_sort_insert: "length (sort_insert cmp x ys) = Suc (length ys)"
  by (induction ys) auto

lemma length_qsort_arg: "length (qsort_arg cmp xs) = length xs"
  by (induction xs) (auto simp: qsort_arg_def length_sort_insert)

lemma length_remove_duplicates: "length (remove_duplicates xs) \<le> length xs"
  by (induction xs rule: remove_duplicates.induct) auto

lemma length_sort_and_uniq_items: "length (sort_and_uniq_items q) \<le> length q"
  using length_remove_duplicates[of "qsort_arg compare_query_operand (collect_operands q)"]
    length_collect_operands[of q]
  by (auto simp: sort_and_uniq_items_def Let_def length_qsort_arg)

lemma calc_rank_and_pairs:
  "calc_rank_and w t q =
     (if length (sort_and_uniq_items q) < 2 then calc_rank_or w t q
      else foldl (\<lambda>res (s, a, b). and_pair w s res a b) (- 1)
             (scored_pairs t (sort_and_uniq_items q)))"
  using and_operands_fold[OF length_sort_and_uniq_items, of w t "sort_and_uniq_items q" q]
  by (simp add: calc_rank_and_def Let_def scored_pairs_def)

text \<open>
  Examples: two lexemes at the positions 10 and 11 of class 3; two lexemes without
  positions; two lexemes at the same position 10.
\<close>

definition vec_S3 :: TSVector where
  "vec_S3 = [\<lparr>lexeme = ''a'', haspos = True, posvec = [0xC00A]\<rparr>,
             \<lparr>lexeme = ''b'', haspos = True, posvec = [0xC00B]\<rparr>]"

definition vec_a_b_nopos :: TSVector where
  "vec_a_b_nopos = [\<lparr>lexeme = ''a'', haspos = False, posvec = []\<rparr>,
                    \<lparr>lexeme = ''b'', haspos = False, posvec = []\<rparr>]"

definition vec_a_b_same :: TSVector where
  "vec_a_b_same = [\<lparr>lexeme = ''a'', haspos = True, posvec = [0xC00A]\<rparr>,
                   \<lparr>lexeme = ''b'', haspos = True, posvec = [0xC00A]\<rparr>]"

definition query_a_and_b :: TSQuery where
  "query_a_and_b = [QI_OPR OP_AND, QI_VAL \<lparr>operand = ''a'', is_prefix = False\<rparr>,
                    QI_VAL \<lparr>operand = ''b'', is_prefix = False\<rparr>]"

text \<open>
  Claim C5. For every weight table that \<^verbatim>\<open>get_weights\<close> returns, every vector and
  every query, \<^verbatim>\<open>calc_rank_and\<close> returns the score of the spec's rule over the pairs
  listed above: with fewer than two distinct operands the OR ranker's score; otherwise
  every position of every entry an operand matches is paired with every position that an
  earlier, matched operand holds; a pair at distance 0 is skipped unless one side is the
  dummy vector of an entry without positions, and then takes the distance
  \<open>MAXENTRYPOS\<close>; the first scored pair sets the score and a later one combines as
  \<open>1 - (1 - res) (1 - curw)\<close>; \<open>-1\<close> remains iff no pair was scored.
\<close>

theorem calc_rank_and_refines_spec:
  assumes "get_weights win = Inr w"
  shows "calc_rank_and w t q = rank_and_spec w t q"
proof -
  from get_weights_range[OF assms] have w: "\<forall>c<4. 0 \<le> w ! c \<and> w ! c \<le> 1" by simp
  have "and_rel (- 1) None" by (simp add: and_rel_def)
  from and_pairs_fold[OF w this, of "scored_pairs t (sort_and_uniq_items q)"]
  have "foldl (\<lambda>res (s, a, b). and_pair w s res a b) (- 1) (scored_pairs t (sort_and_uniq_items q))
        = (case foldl (\<lambda>acc (s, a, b). and_pair_spec w s acc a b) None
                  (scored_pairs t (sort_and_uniq_items q)) of
             None \<Rightarrow> - 1
           | Some r \<Rightarrow> r)"
    by (simp add: and_rel_def split: option.splits)
  then show ?thesis by (simp add: calc_rank_and_pairs rank_and_spec_def Let_def)
qed

theorem calc_rank_and_refines_spec_witness:
  "get_weights None = Inr weights
   \<and> scored_pairs vec_S3 (sort_and_uniq_items query_a_and_b) = [(False, 0xC00B, 0xC00A)]
   \<and> calc_rank_and weights vec_S3 query_a_and_b = sqrt (word_distance 1)
   \<and> scored_pairs vec_a_b_nopos (sort_and_uniq_items query_a_and_b) = [(True, 0x3FFF, 0x3FFF)]
   \<and> calc_rank_and weights vec_a_b_nopos query_a_and_b = sqrt (0.1 * 0.1 * (1 / 10 ^ 30))
   \<and> scored_pairs vec_a_b_same (sort_and_uniq_items query_a_and_b) = [(False, 0xC00A, 0xC00A)]
   \<and> calc_rank_and weights vec_a_b_same query_a_and_b = - 1"
proof -
  have g: "get_weights None = Inr weights" by (simp add: get_weights_def)
  have s: "sort_and_uniq_items query_a_and_b
             = [\<lparr>operand = ''a'', is_prefix = False\<rparr>, \<lparr>operand = ''b'', is_prefix = False\<rparr>]"
    by code_simp
  have p3: "scored_pairs vec_S3 (sort_and_uniq_items query_a_and_b) = [(False, 0xC00B, 0xC00A)]"
    by code_simp
  have pn: "scored_pairs vec_a_b_nopos (sort_and_uniq_items query_a_and_b) = [(True, 0x3FFF, 0x3FFF)]"
    by code_simp
  have p1: "scored_pairs vec_a_b_same (sort_and_uniq_items query_a_and_b) = [(False, 0xC00A, 0xC00A)]"
    by code_simp
  have wp: "WEP_GETPOS 0xC00A = 10" "WEP_GETPOS 0xC00B = 11" "WEP_GETPOS 0x3FFF = 16383"
    "WEP_GETWEIGHT 0xC00A = 3" "WEP_GETWEIGHT 0xC00B = 3" "WEP_GETWEIGHT 0x3FFF = 0"
    by (simp_all add: WEP_GETPOS_def WEP_GETWEIGHT_def)
  have r3: "rank_and_spec weights vec_S3 query_a_and_b = sqrt (word_distance 1)"
    using p3 by (simp add: rank_and_spec_def s and_pair_spec_def wp weights_def word_distance_def)
  have rn: "rank_and_spec weights vec_a_b_nopos query_a_and_b = sqrt (0.1 * 0.1 * (1 / 10 ^ 30))"
    using pn by (simp add: rank_and_spec_def s and_pair_spec_def wp weights_def MAXENTRYPOS_def)
  have r1: "rank_and_spec weights vec_a_b_same query_a_and_b = - 1"
    using p1 by (simp add: rank_and_spec_def s and_pair_spec_def)
  from calc_rank_and_refines_spec[OF g] g p3 pn p1 r3 rn r1 show ?thesis by simp
qed

subsection \<open>Termination and result of the cover search\<close>

lemma cover_down_bounds:
  "cover_down ev q doc operandexist lo ptr0 = (ptr, hit) \<Longrightarrow>
     (hit \<longrightarrow> lo \<le> ptr \<and> ptr \<le> ptr0) \<and> (\<not> hit \<longrightarrow> ptr < lo)"
proof (induction ev q doc operandexist lo ptr0 rule: cover_down.induct)
  case (1 ev q doc operandexist lo ptr0)
  show ?case
  proof (cases "ptr0 \<ge> lo")
    case False
    with "1.prems" show ?thesis by (simp add: cover_down.simps)
  next
    case True
    show ?thesis
    proof (cases "ev q (set_operand_exists q operandexist (dr_item (doc ! nat ptr0))) True")
      case yes: True
      with True "1.prems" show ?thesis by (simp add: cover_down.simps)
    next
      case no: False
      with True "1.prems"
      have "cover_down ev q doc (set_operand_exists q operandexist (dr_item (doc ! nat ptr0))) lo (ptr0 - 1)
              = (ptr, hit)"
        by (simp add: cover_down.simps)
      from "1.IH"[OF True no this] show ?thesis by auto
    qed
  qed
qed

lemma cover_attempt_Return_True:
  assumes "cover_attempt ev q doc ext = Return True e"
  shows "ext_p e \<le> ext_q e \<and>
         ((\<forall>d\<in>set doc. dr_pos d < 0x7fffffff) \<longrightarrow> (\<exists>b. ext_begin e = Some b \<and> b < ext_pos e))"
proof -
  from assms obtain lastpos where
    up: "cover_up ev q doc (replicate (length q) False) (ext_pos ext) = Some lastpos"
    by (cases "cover_up ev q doc (replicate (length q) False) (ext_pos ext)")
       (simp_all add: cover_attempt_def)
  obtain ptr hit where
    down: "cover_down ev q doc (replicate (length q) False) (int (ext_pos ext)) (int lastpos) = (ptr, hit)"
    by (cases "cover_down ev q doc (replicate (length q) False) (int (ext_pos ext)) (int lastpos)")
  define ext' where "ext' =
     (if hit \<and> dr_pos (doc ! nat ptr) < 0x7fffffff
      then ext\<lparr>ext_p := dr_pos (doc ! nat ptr), ext_q := dr_pos (doc ! lastpos),
               ext_begin := Some (nat ptr), ext_end := Some lastpos\<rparr>
      else ext\<lparr>ext_p := 0x7fffffff, ext_q := dr_pos (doc ! lastpos), ext_end := Some lastpos\<rparr>)"
  have unf: "cover_attempt ev q doc ext =
     (if ext_p ext' \<le> ext_q ext' then Return True (ext'\<lparr>ext_pos := nat (ptr + 1)\<rparr>)
      else Retry (ext'\<lparr>ext_pos := ext_pos ext + 1\<rparr>))"
    by (simp only: cover_attempt_def up option.case down prod.case Let_def ext'_def)
  have le: "ext_p ext' \<le> ext_q ext'"
  proof (rule ccontr)
    assume "\<not> ext_p ext' \<le> ext_q ext'"
    with unf assms show False by simp
  qed
  with unf assms have e: "e = ext'\<lparr>ext_pos := nat (ptr + 1)\<rparr>" by simp
  from cover_up_bounds[OF up] have l: "lastpos < length doc" by simp
  from cover_down_bounds[OF down] have h: "hit \<longrightarrow> 0 \<le> ptr" by auto
  have pq: "ext_p e \<le> ext_q e" using le e by simp
  have adv: "\<exists>b. ext_begin e = Some b \<and> b < ext_pos e" if wf: "\<forall>d\<in>set doc. dr_pos d < 0x7fffffff"
  proof (cases "hit \<and> dr_pos (doc ! nat ptr) < 0x7fffffff")
    case True
    then have "ext_begin e = Some (nat ptr)" "ext_pos e = nat (ptr + 1)"
      by (simp_all add: e ext'_def)
    moreover have "nat ptr < nat (ptr + 1)" using h True by simp
    ultimately show ?thesis by simp
  next
    case False
    then have "ext_p ext' = 0x7fffffff" "ext_q ext' = dr_pos (doc ! lastpos)"
      by (simp_all add: ext'_def)
    with le have "0x7fffffff \<le> dr_pos (doc ! lastpos)" by simp
    moreover have "dr_pos (doc ! lastpos) < 0x7fffffff" using wf l by simp
    ultimately show ?thesis by simp
  qed
  from pq adv show ?thesis by blast
qed

text \<open>
  The positions of a document representation that \<^verbatim>\<open>get_docrep\<close> builds are 14-bit
  positions, below the value \<open>0x7fffffff\<close> that \<^verbatim>\<open>cover\<close> starts \<open>p\<close> from.
\<close>

lemma WEP_GETPOS_bound: "int (WEP_GETPOS p) < 0x7fffffff"
proof -
  have "unat (p AND 0x3fff) \<le> unat (0x3fff :: 16 word)"
    by (rule word_and_le1 [THEN word_le_nat_alt [THEN iffD1]])
  then have "WEP_GETPOS p \<le> 16383" by (simp add: WEP_GETPOS_def)
  then show ?thesis by linarith
qed

definition docrep_positions_ok :: "DocRepresentation list \<Rightarrow> bool" where
  "docrep_positions_ok doc = (\<forall>d\<in>set doc. dr_pos d < 0x7fffffff)"

lemma docrep_positions_ok_step:
  "docrep_positions_ok (fst st) \<Longrightarrow> docrep_positions_ok (fst (docrep_positions q i post j st))"
proof (induction post arbitrary: j st)
  case Nil
  then show ?case by simp
next
  case (Cons p post)
  obtain doc ex where st: "st = (doc, ex)" by (cases st)
  from Cons.prems st have "docrep_positions_ok doc" by simp
  then have "docrep_positions_ok (doc @ [\<lparr>dr_item = its, dr_wclass = WEP_GETWEIGHT p,
                       dr_pos = int (WEP_GETPOS p)\<rparr>])" for its
    using WEP_GETPOS_bound[of p] by (simp add: docrep_positions_ok_def)
  then show ?case unfolding st by (auto intro!: Cons.IH)
qed

lemma foldl_invariant:
  "P s \<Longrightarrow> (\<And>s x. P s \<Longrightarrow> P (f s x)) \<Longrightarrow> P (foldl f s xs)"
  by (induction xs arbitrary: s) auto

lemma docrep_operand_ok:
  "docrep_positions_ok (fst st) \<Longrightarrow> docrep_positions_ok (fst (docrep_operand txt q st i))"
  unfolding docrep_operand_def
  by (auto split: QueryItem.splits option.splits prod.splits
      intro!: foldl_invariant[where P = "\<lambda>s. docrep_positions_ok (fst s)"]
      simp: docrep_entry_def docrep_positions_ok_step)

lemma get_docrep_positions:
  assumes "get_docrep txt q = Some doc"
  shows "\<forall>d\<in>set doc. dr_pos d < 0x7fffffff"
proof -
  let ?st = "foldl (docrep_operand txt q) ([], replicate (length q) False) [0..<length q]"
  have "docrep_positions_ok (fst ?st)"
    by (rule foldl_invariant[where P = "\<lambda>s. docrep_positions_ok (fst s)"])
       (simp_all add: docrep_positions_ok_def[of "[]"] docrep_operand_ok)
  moreover from assms have "doc = qsort_arg compareDocR (fst ?st)"
    by (auto simp: get_docrep_def Let_def split: if_splits)
  ultimately show ?thesis by (simp add: docrep_positions_ok_def set_qsort_arg)
qed

lemma cover_bounded_enough:
  "length doc - ext_pos ext < n \<Longrightarrow> cover_bounded n ev q doc ext = Some (cover ev q doc ext)"
proof (induction ev q doc ext arbitrary: n rule: cover.induct)
  case (1 ev q doc ext)
  from "1.prems" obtain m where n: "n = Suc m" by (cases n) auto
  show ?case
  proof (cases "cover_attempt ev q doc ext")
    case (Return found e)
    then show ?thesis by (simp add: n cover.simps)
  next
    case (Retry e)
    from cover_attempt_Retry[OF Retry] "1.prems" n have "length doc - ext_pos e < m" by linarith
    from "1.IH"[OF Retry this] Retry show ?thesis by (simp add: n cover.simps[of ev q doc ext])
  qed
qed

lemma cover_True:
  "cover ev q doc ext = (True, e) \<Longrightarrow>
     ext_p e \<le> ext_q e \<and>
     ((\<forall>d\<in>set doc. dr_pos d < 0x7fffffff) \<longrightarrow> (\<exists>b. ext_begin e = Some b \<and> b < ext_pos e))"
proof (induction ev q doc ext rule: cover.induct)
  case (1 ev q doc ext)
  show ?case
  proof (cases "cover_attempt ev q doc ext")
    case (Return found e')
    with "1.prems" have "cover_attempt ev q doc ext = Return True e"
      by (simp add: cover.simps)
    from cover_attempt_Return_True[OF this] show ?thesis .
  next
    case (Retry e')
    with "1.prems" have "cover ev q doc e' = (True, e)" by (simp add: cover.simps[of ev q doc ext])
    from "1.IH"[OF Retry this] show ?thesis .
  qed
qed

definition doc_S1 :: "DocRepresentation list" where
  "doc_S1 = [\<lparr>dr_item = [0], dr_wclass = 3, dr_pos = 5\<rparr>]"

definition ext_zero :: Extention where
  "ext_zero = \<lparr>ext_pos = 0, ext_p = 0, ext_q = 0, ext_begin = None, ext_end = None\<rparr>"

lemma get_docrep_S1: "get_docrep vec_S1 query_cat = Some doc_S1"
  by code_simp

lemma cover_S1_first:
  "cover TS_execute query_cat doc_S1 ext_zero =
     (True, \<lparr>ext_pos = 1, ext_p = 5, ext_q = 5, ext_begin = Some 0, ext_end = Some 0\<rparr>)"
  by code_simp

lemma cover_S1_second:
  "cover TS_execute query_cat doc_S1
       \<lparr>ext_pos = 1, ext_p = 5, ext_q = 5, ext_begin = Some 0, ext_end = Some 0\<rparr> =
     (False, \<lparr>ext_pos = 1, ext_p = 0x7fffffff, ext_q = 0, ext_begin = Some 0, ext_end = Some 0\<rparr>)"
  by code_simp

text \<open>
  A query \<open>a & !b\<close> and the document representation of a vector with \<open>a\<close> at
  position 1: under the evaluator above the downward scan never accepts, so the first
  candidate is rejected.
\<close>

definition query_a_not_b :: TSQuery where
  "query_a_not_b = [QI_OPR OP_AND, QI_VAL \<lparr>operand = ''a'', is_prefix = False\<rparr>,
                    QI_OPR OP_NOT, QI_VAL \<lparr>operand = ''b'', is_prefix = False\<rparr>]"

definition doc_a :: "DocRepresentation list" where
  "doc_a = [\<lparr>dr_item = [1], dr_wclass = 3, dr_pos = 1\<rparr>]"

lemma get_docrep_a:
  "get_docrep [\<lparr>lexeme = ''a'', haspos = True, posvec = [0xC001]\<rparr>] query_a_not_b = Some doc_a"
  by code_simp

lemma cover_attempt_a:
  "cover_attempt TS_execute query_a_not_b doc_a ext_zero =
     Retry \<lparr>ext_pos = 1, ext_p = 0x7fffffff, ext_q = 1, ext_begin = None, ext_end = Some 0\<rparr>"
  by code_simp

lemma cover_a:
  "cover TS_execute query_a_not_b doc_a ext_zero =
     (False, \<lparr>ext_pos = 1, ext_p = 0x7fffffff, ext_q = 0, ext_begin = None, ext_end = Some 0\<rparr>)"
  by code_simp

text \<open>
  Claim C7. For every evaluator, query, document representation and starting state:
  \<^verbatim>\<open>cover\<close> returns, and the iteration under a counter returns the same result
  within \<open>len - pos + 1\<close> attempts, since an attempt that is rejected moves
  \<^verbatim>\<open>ext->pos\<close> up by one and is made only below \<open>len\<close>. When \<^verbatim>\<open>cover\<close> reports
  success, \<open>p \<le> q\<close>; and, the positions of the document representation being below
  the initial value \<open>0x7fffffff\<close> of \<open>p\<close>, as they are in every document
  representation that \<^verbatim>\<open>get_docrep\<close> builds, the new \<^verbatim>\<open>ext->pos\<close> is above the
  index of the cover's begin.
\<close>

theorem cover_terminates_and_advances:
  "cover_bounded (Suc (length doc - ext_pos ext)) ev q doc ext = Some (cover ev q doc ext)
   \<and> (\<forall>e. cover_attempt ev q doc ext = Retry e \<longrightarrow>
          ext_pos e = ext_pos ext + 1 \<and> ext_pos ext < length doc)
   \<and> (\<forall>e. cover ev q doc ext = (True, e) \<longrightarrow> ext_p e \<le> ext_q e)
   \<and> (\<forall>e. (\<forall>d\<in>set doc. dr_pos d < 0x7fffffff) \<longrightarrow> cover ev q doc ext = (True, e) \<longrightarrow>
          (\<exists>b. ext_begin e = Some b \<and> b < ext_pos e))
   \<and> (\<forall>e txt. get_docrep txt q = Some doc \<longrightarrow> cover ev q doc ext = (True, e) \<longrightarrow>
          (\<exists>b. ext_begin e = Some b \<and> b < ext_pos e))"
proof -
  have 1: "cover_bounded (Suc (length doc - ext_pos ext)) ev q doc ext = Some (cover ev q doc ext)"
    by (rule cover_bounded_enough) simp
  have 2: "\<forall>e. cover_attempt ev q doc ext = Retry e \<longrightarrow>
          ext_pos e = ext_pos ext + 1 \<and> ext_pos ext < length doc"
    using cover_attempt_Retry by blast
  have 3: "\<forall>e. cover ev q doc ext = (True, e) \<longrightarrow> ext_p e \<le> ext_q e"
    using cover_True by blast
  have 4: "\<forall>e. (\<forall>d\<in>set doc. dr_pos d < 0x7fffffff) \<longrightarrow> cover ev q doc ext = (True, e) \<longrightarrow>
          (\<exists>b. ext_begin e = Some b \<and> b < ext_pos e)"
    using cover_True by blast
  have 5: "\<forall>e txt. get_docrep txt q = Some doc \<longrightarrow> cover ev q doc ext = (True, e) \<longrightarrow>
          (\<exists>b. ext_begin e = Some b \<and> b < ext_pos e)"
    using 4 get_docrep_positions by blast
  from 1 2 3 4 5 show ?thesis by (intro conjI)
qed

theorem cover_terminates_and_advances_witness:
  "list_all (\<lambda>d. dr_pos d < 0x7fffffff) doc_S1
   \<and> cover TS_execute query_cat doc_S1 ext_zero =
       (True, \<lparr>ext_pos = 1, ext_p = 5, ext_q = 5, ext_begin = Some 0, ext_end = Some 0\<rparr>)
   \<and> cover_bounded (Suc (length doc_S1 - ext_pos ext_zero)) TS_execute query_cat doc_S1 ext_zero =
       Some (cover TS_execute query_cat doc_S1 ext_zero)
   \<and> cover_attempt TS_execute query_a_not_b doc_a ext_zero =
       Retry \<lparr>ext_pos = 1, ext_p = 0x7fffffff, ext_q = 1, ext_begin = None, ext_end = Some 0\<rparr>
   \<and> cover_bounded 2 TS_execute query_a_not_b doc_a ext_zero =
       Some (False, \<lparr>ext_pos = 1, ext_p = 0x7fffffff, ext_q = 0, ext_begin = None, ext_end = Some 0\<rparr>)"
proof -
  have a: "\<forall>d\<in>set doc_S1. dr_pos d < 0x7fffffff" by (simp add: doc_S1_def)
  have l: "Suc (length doc_a - ext_pos ext_zero) = 2" by (simp add: doc_a_def ext_zero_def)
  from cover_terminates_and_advances[of doc_S1 ext_zero TS_execute query_cat] a cover_S1_first
  have 1: "list_all (\<lambda>d. dr_pos d < 0x7fffffff) doc_S1
   \<and> cover TS_execute query_cat doc_S1 ext_zero =
       (True, \<lparr>ext_pos = 1, ext_p = 5, ext_q = 5, ext_begin = Some 0, ext_end = Some 0\<rparr>)
   \<and> cover_bounded (Suc (length doc_S1 - ext_pos ext_zero)) TS_execute query_cat doc_S1 ext_zero =
       Some (cover TS_execute query_cat doc_S1 ext_zero)"
    by (simp add: doc_S1_def)
  from cover_terminates_and_advances[of doc_a ext_zero TS_execute query_a_not_b] cover_a
  have 2: "cover_bounded 2 TS_execute query_a_not_b doc_a ext_zero =
       Some (False, \<lparr>ext_pos = 1, ext_p = 0x7fffffff, ext_q = 0, ext_begin = None, ext_end = Some 0\<rparr>)"
    by (simp only: l)
  from 1 2 cover_attempt_a show ?thesis by (intro conjI) simp_all
qed

subsection \<open>The logarithm of the length normalisation\<close>

lemma cd_extent_S1:
  "cd_extent (map (\<lambda>x. 1 / x) weights) doc_S1
     \<lparr>ext_pos = 1, ext_p = 5, ext_q = 5, ext_begin = Some 0, ext_end = Some 0\<rparr> (0, 0, 0, 0)
   = (1, 0, 5, 1)"
  by (simp add: cd_extent_def doc_S1_def weights_def half_def)

lemma cover_loop_S1:
  "cover_loop TS_execute query_cat doc_S1 (map (\<lambda>x. 1 / x) weights) ext_zero (0, 0, 0, 0)
   = Some (1, 0, 5, 1)"
  apply (subst cover_loop.simps)
  apply (simp only: cover_S1_first fst_conv snd_conv if_True cd_extent_S1)
  apply (subst cover_loop.simps)
  apply (simp only: cover_S1_second fst_conv snd_conv if_False)
  done

lemma check_weights_default:
  "check_weights (map (\<lambda>i. weights ! i) [0..<length weights]) weights = Inr weights"
  by (simp add: weights_def upt_rec)

lemma cnt_length_S1: "cnt_length vec_S1 = 1"
  by (simp add: cnt_length_def vec_S1_def POSDATALEN_def)

text \<open>
  Claim C2 at the input \<open>v = [("cat", [(5, class 3)])]\<close>, \<open>q = "cat"\<close>, default
  weights. The raw cover-density score is 1 and \<open>cnt_length v + 1 = 2\<close>, so the claim
  asks for \<open>1 / log\<^sub>2 2 = 1\<close> under bit \<open>0x01\<close>. \<^verbatim>\<open>calc_rank_cd\<close> returns
  \<open>1 / ln 2\<close>: it divides by the natural logarithm. \<^verbatim>\<open>calc_rank\<close> divides by the
  logarithm to base 2 at the same input.
\<close>

theorem loglength_cd_natural_log:
  "calc_rank_cd TS_execute weights vec_S1 query_cat 0 = Some (Inr 1)
   \<and> calc_rank_cd TS_execute weights vec_S1 query_cat 1 = Some (Inr (1 / ln 2))
   \<and> 1 / log 2 (real (cnt_length vec_S1 + 1)) = 1
   \<and> 1 / ln 2 \<noteq> (1::real)
   \<and> calc_rank weights vec_S1 query_cat 1
       = calc_rank weights vec_S1 query_cat 0 / log 2 (real (cnt_length vec_S1 + 1))"
proof -
  have raw: "calc_rank_cd TS_execute weights vec_S1 query_cat m
               = Some (Inr (cd_normalise m vec_S1 (1, 0, 5, 1)))" for m
    by (simp add: calc_rank_cd_def check_weights_default get_docrep_S1
        cover_loop_S1[unfolded ext_zero_def])
  have n0: "cd_normalise 0 vec_S1 (1, 0, 5, 1) = 1"
    by (simp add: cd_normalise_def)
  have n1: "cd_normalise 1 vec_S1 (1, 0, 5, 1) = 1 / ln 2"
  proof -
    have "length vec_S1 = 1" by (simp add: vec_S1_def)
    then show ?thesis by (simp add: cd_normalise_def cnt_length_S1)
  qed
  have l2: "ln (2::real) < 1" using ln_less_self[of 2] ln_2_less_1 by simp
  have ne: "1 / ln 2 \<noteq> (1::real)" using l2 by simp
  have std: "calc_rank weights vec_S1 query_cat 1
       = calc_rank weights vec_S1 query_cat 0 / log 2 (real (cnt_length vec_S1 + 1))"
  proof -
    have len: "length vec_S1 = 1" "length query_cat = 1"
      by (simp_all add: vec_S1_def query_cat_def)
    show ?thesis
      by (simp add: calc_rank_def rank_normalise_def cnt_length_S1 len log_def)
  qed
  show ?thesis using raw n0 n1 ne std by (simp add: cnt_length_S1)
qed

end
